theory Spec2Isabelle
  imports Main "HOL-Library.Word" "HOL-Library.Log_Nat"
begin

section \<open>image2mzm: an image to MZM tile layer converter\<close>

text \<open>
  The development follows \<^verbatim>\<open>src/image2mzm.py\<close> function by function. Python's
  unbounded integers are \<^typ>\<open>int\<close>, occurrence counts are \<^typ>\<open>nat\<close>, a raised
  exception is the left summand of a result, and the file system is passed explicitly.
  The imaging library (Pillow) is not part of the program: its entry points are the
  fields of a record that every function using them takes as its first argument. The
  same holds for what \<^verbatim>\<open>int\<close> takes from the interpreter.
\<close>

type_synonym byte = "8 word"

datatype error =
    IndexError | ValueError | ZeroDivisionError | FileNotFoundError
  | AssertionError | StructError | OSError | LibraryError

text \<open>
  A Python string is the list of its code points. File names are only compared, and are
  kept as prover strings.
\<close>

type_synonym pystr = "nat list"

text \<open>
  The namespace built by \<^verbatim>\<open>build_parser\<close>. The words \<open>input\<close> and \<open>output\<close> are
  keywords of the prover, hence the suffix of the first two fields; the log level plays
  no part.
\<close>

record args =
  input_arg :: string
  output_arg :: string
  width :: int
  height :: int
  char_width :: int
  char_height :: int
  palette :: "string option"
  chars :: pystr

text \<open>The defaults of the parser, for given positional arguments.\<close>

definition default_args :: "string \<Rightarrow> string \<Rightarrow> args" where
  "default_args inp out =
     \<lparr>input_arg = inp, output_arg = out, width = 80, height = 25,
      char_width = 8, char_height = 14, palette = None,
      chars = map of_char ''176,177,178,219''\<rparr>"

text \<open>The files the program can see, and which paths can be opened for writing.\<close>

record world =
  files :: "string \<Rightarrow> byte list option"
  writable :: "string \<Rightarrow> bool"

subsection \<open>Python list indexing\<close>

text \<open>\<^verbatim>\<open>xs[i]\<close>: a negative index counts from the end, anything out of range raises.\<close>

definition py_index :: "'a list \<Rightarrow> int \<Rightarrow> error + 'a" where
  "py_index xs i =
     (if 0 \<le> i \<and> i < int (length xs) then Inr (xs ! nat i)
      else if i < 0 \<and> - int (length xs) \<le> i then Inr (xs ! nat (int (length xs) + i))
      else Inl IndexError)"

text \<open>\<^verbatim>\<open>list(map(f, xs))\<close> for an \<open>f\<close> that may raise: the first failure ends the run.\<close>

fun map_result :: "('a \<Rightarrow> error + 'b) \<Rightarrow> 'a list \<Rightarrow> error + 'b list" where
  "map_result f [] = Inr []"
| "map_result f (x # xs) =
     (case f x of
        Inl e \<Rightarrow> Inl e
      | Inr y \<Rightarrow> (case map_result f xs of Inl e \<Rightarrow> Inl e | Inr ys \<Rightarrow> Inr (y # ys)))"

subsection \<open>Palettes\<close>

definition DEFAULT_PALETTE :: "int list list" where
  "DEFAULT_PALETTE =
    [[0, 0, 0], [0, 0, 42], [0, 42, 0], [0, 42, 42], [42, 0, 0], [42, 0, 42],
     [42, 21, 0], [42, 42, 42], [21, 21, 21], [21, 21, 63], [21, 63, 21],
     [21, 63, 63], [63, 21, 21], [63, 21, 63], [63, 63, 21], [63, 63, 63]]"

text \<open>
  The loop of \<^verbatim>\<open>get_palette\<close>: \<open>n\<close> rounds are left, \<open>j\<close> is the read position in
  the bytes \<open>k\<close>, \<open>pal\<close> the triples appended so far. Indexing a \<^verbatim>\<open>bytes\<close> object
  yields the byte as an integer.
\<close>

fun palette_loop :: "nat \<Rightarrow> int \<Rightarrow> byte list \<Rightarrow> int list list \<Rightarrow> error + int list list" where
  "palette_loop 0 j k pal = Inr pal"
| "palette_loop (Suc n) j k pal =
     (case py_index k j of
        Inl e \<Rightarrow> Inl e
      | Inr r \<Rightarrow>
     (case py_index k (j + 1) of
        Inl e \<Rightarrow> Inl e
      | Inr g \<Rightarrow>
     (case py_index k (j + 2) of
        Inl e \<Rightarrow> Inl e
      | Inr b \<Rightarrow> palette_loop n (j + 3) k (pal @ [[uint r, uint g, uint b]]))))"

text \<open>\<^verbatim>\<open>f.read(48)\<close> returns the first 48 bytes of the file, or all of a shorter one.\<close>

definition get_palette :: "args \<Rightarrow> world \<Rightarrow> error + int list list" where
  "get_palette a w =
     (case palette a of
        None \<Rightarrow> Inr DEFAULT_PALETTE
      | Some path \<Rightarrow>
          (case files w path of
             None \<Rightarrow> Inl FileNotFoundError
           | Some content \<Rightarrow> (let k = take 48 content in palette_loop 16 0 k [])))"

text \<open>
  \<^verbatim>\<open>make_8bit_palette\<close>: the nested palette is flattened and every channel is sent
  through the lambda \<^verbatim>\<open>x*4 + x//16\<close>. Python's \<^verbatim>\<open>//\<close> is floor division, as
  \<open>div\<close> on \<^typ>\<open>int\<close> is.
\<close>

definition make_8bit_palette :: "int list list \<Rightarrow> int list" where
  "make_8bit_palette pal6bit = map (\<lambda>x. (x * 4) + (x div 16)) (concat pal6bit)"

text \<open>
  In \<^verbatim>\<open>mad_science\<close> the flat palette handed to \<^verbatim>\<open>putpalette\<close> is
  \<^verbatim>\<open>pil_pal * 16\<close>: list repetition.
\<close>

definition diffusion_table :: "int list \<Rightarrow> int list" where
  "diffusion_table pil_pal = concat (replicate 16 pil_pal)"

text \<open>
  A flat palette is read as consecutive RGB triples: colour \<open>i\<close> occupies the
  positions \<open>3 i\<close>, \<open>3 i + 1\<close> and \<open>3 i + 2\<close>.
\<close>

definition palette_entry :: "int list \<Rightarrow> nat \<Rightarrow> int \<times> int \<times> int" where
  "palette_entry tbl i = (tbl ! (3 * i), tbl ! (3 * i + 1), tbl ! (3 * i + 2))"

subsection \<open>The glyph gradient\<close>

text \<open>\<^verbatim>\<open>s.split(',')\<close>: every separator ends a token; empty tokens are kept.\<close>

fun split_on :: "'a \<Rightarrow> 'a list \<Rightarrow> 'a list list" where
  "split_on sep [] = [[]]"
| "split_on sep (c # cs) =
     (if c = sep then [] # split_on sep cs
      else (case split_on sep cs of [] \<Rightarrow> [[c]] | t # ts \<Rightarrow> (c # t) # ts))"

text \<open>
  What \<^verbatim>\<open>int\<close> takes from the interpreter and not from the program: the Unicode
  database, asked whether a code point is white space and which decimal digit it is, if
  any, and the limit on the digits of an integer literal (4300 unless changed; 0, or an
  interpreter older than the limit, means none).
\<close>

record interpreter =
  unicode_isspace :: "nat \<Rightarrow> bool"
  unicode_todecimal :: "nat \<Rightarrow> nat option"
  max_str_digits :: nat

text \<open>
  An interpreter for runs on ASCII text, where the database is never consulted: its
  tables list nothing, its limit is the default.
\<close>

definition ascii_interpreter :: interpreter where
  "ascii_interpreter =
     \<lparr>unicode_isspace = (\<lambda>c. False), unicode_todecimal = (\<lambda>c. None), max_str_digits = 4300\<rparr>"

text \<open>
  \<^verbatim>\<open>int(s)\<close> on a string, base ten, in two steps as the interpreter takes them. First
  a string that is not pure ASCII is rewritten: code points below 127 stay, white space
  becomes a blank, a decimal digit becomes its ASCII digit, and at any other code point
  a question mark is written and the rest is dropped. Then the ASCII text is read: white
  space (tab to carriage return, and the blank) around the literal is skipped, one sign
  may lead, the digits may be grouped by single underscores, and a literal of more than
  640 digits that exceeds the limit is refused. The code points 43, 45, 95 and 63 are
  \<^verbatim>\<open>+\<close>, \<^verbatim>\<open>-\<close>, \<^verbatim>\<open>_\<close> and \<^verbatim>\<open>?\<close>; 48 to 57 are the digits.
\<close>

fun transform :: "interpreter \<Rightarrow> pystr \<Rightarrow> pystr" where
  "transform U [] = []"
| "transform U (c # cs) =
     (if c < 127 then c # transform U cs
      else if unicode_isspace U c then 32 # transform U cs
      else (case unicode_todecimal U c of
              None \<Rightarrow> [63]
            | Some d \<Rightarrow> (48 + d) # transform U cs))"

definition to_ascii :: "interpreter \<Rightarrow> pystr \<Rightarrow> pystr" where
  "to_ascii U s = (if \<forall>c \<in> set s. c < 128 then s else transform U s)"

definition is_space :: "nat \<Rightarrow> bool" where
  "is_space c = (c \<in> {9, 10, 11, 12, 13, 32})"

definition is_digit :: "nat \<Rightarrow> bool" where
  "is_digit c = (48 \<le> c \<and> c \<le> 57)"

definition digit_value :: "nat \<Rightarrow> int" where
  "digit_value c = int c - 48"

fun scan_digits :: "pystr \<Rightarrow> int \<Rightarrow> nat \<Rightarrow> nat option \<Rightarrow> (int \<times> nat) option" where
  "scan_digits [] acc n prev =
     (if n = 0 \<or> prev = Some 95 then None else Some (acc, n))"
| "scan_digits (c # cs) acc n prev =
     (if is_digit c then scan_digits cs (10 * acc + digit_value c) (Suc n) (Some c)
      else if c = 95 \<and> prev \<noteq> None \<and> prev \<noteq> Some 95
        then scan_digits cs acc n (Some c)
      else None)"

definition strip :: "pystr \<Rightarrow> pystr" where
  "strip s = rev (dropWhile is_space (rev (dropWhile is_space s)))"

definition python_int :: "interpreter \<Rightarrow> pystr \<Rightarrow> error + int" where
  "python_int U s =
     (let t = strip (to_ascii U s);
          (sign, body) =
            (case t of
               [] \<Rightarrow> (1, [])
             | c # r \<Rightarrow> if c = 43 then (1, r) else if c = 45 then (- 1, r) else (1, t))
      in case scan_digits body 0 0 None of
           None \<Rightarrow> Inl ValueError
         | Some (v, n) \<Rightarrow>
             if 640 < n \<and> 0 < max_str_digits U \<and> max_str_digits U < n then Inl ValueError
             else Inr (sign * v))"

text \<open>The separator is the comma, code point 44.\<close>

definition get_chars :: "interpreter \<Rightarrow> args \<Rightarrow> error + int list" where
  "get_chars U a = map_result (python_int U) (split_on 44 (chars a))"

subsection \<open>Floating point\<close>

text \<open>
  A Python float is an IEEE binary64 number; its value is a rational. \<open>fl\<close> rounds a
  rational to the nearest number with a 53 bit significand, ties to the even significand.
  The exponent is not bounded here: every float the program computes is 0 or has a
  magnitude between 1/2 and the 63rd power of 2, far inside the normal range, where \<open>fl\<close>
  is the rounding of the hardware.
\<close>

definition round_half_even :: "rat \<Rightarrow> int" where
  "round_half_even q =
     (let f = \<lfloor>q\<rfloor>; d = q - of_int f
      in if d < 1 / 2 then f else if 1 / 2 < d then f + 1 else if even f then f else f + 1)"

text \<open>The binary exponent \<open>e\<close> of \<open>q \<noteq> 0\<close>, with \<open>2 powi e \<le> \<bar>q\<bar>\<close> and \<open>\<bar>q\<bar> < 2 powi (e + 1)\<close>.\<close>

definition expo :: "rat \<Rightarrow> int" where
  "expo q = (if 1 \<le> \<bar>q\<bar> then bitlen \<lfloor>\<bar>q\<bar>\<rfloor> - 1 else - bitlen (\<lceil>1 / \<bar>q\<bar>\<rceil> - 1))"

definition fl :: "rat \<Rightarrow> rat" where
  "fl q =
     (if q = 0 then 0
      else (let u = 2 powi (expo q - 52) in of_int (round_half_even (q / u)) * u))"

text \<open>\<^verbatim>\<open>a / b\<close> on integers: the correctly rounded quotient.\<close>

definition int_truediv :: "int \<Rightarrow> int \<Rightarrow> error + rat" where
  "int_truediv a b = (if b = 0 then Inl ZeroDivisionError else Inr (fl (of_int a / of_int b)))"

text \<open>\<^verbatim>\<open>x * n\<close> for a float \<open>x\<close> and an integer \<open>n\<close>: \<open>n\<close> is converted first.\<close>

definition float_mul_int :: "rat \<Rightarrow> int \<Rightarrow> rat" where
  "float_mul_int x n = fl (x * fl (of_int n))"

text \<open>\<^verbatim>\<open>round(x)\<close> with one argument: the nearest integer, ties to the even one.\<close>

definition py_round :: "rat \<Rightarrow> int" where
  "py_round x = round_half_even x"

subsection \<open>The cell reducer\<close>

text \<open>
  \<^verbatim>\<open>sorted(xs, key=f, reverse=True)\<close>: the list is reversed, sorted stably by the key
  and reversed again, so elements with equal keys keep their order. \<open>sort_key\<close> is a
  stable insertion sort.
\<close>

definition sorted_reverse :: "('a \<Rightarrow> 'k::linorder) \<Rightarrow> 'a list \<Rightarrow> 'a list" where
  "sorted_reverse f xs = rev (sort_key f (rev xs))"

text \<open>Line 69: the bins as pairs (count, index), ranked by count.\<close>

definition ranking :: "nat list \<Rightarrow> (nat \<times> nat) list" where
  "ranking hist = sorted_reverse fst (zip hist [0..<length hist])"

text \<open>Line 73.\<close>

definition winner_ratio :: "nat \<times> nat \<Rightarrow> nat \<times> nat \<Rightarrow> error + rat" where
  "winner_ratio winner second = int_truediv (int (fst winner)) (int (fst winner) + int (fst second))"

text \<open>Line 74.\<close>

definition winner_char_index :: "rat \<Rightarrow> int list \<Rightarrow> int" where
  "winner_char_index ratio mzx_chars = py_round (float_mul_int ratio (int (length mzx_chars) - 1))"

definition rank_histogram_to_col_and_char ::
  "nat list \<Rightarrow> int list list \<Rightarrow> int list \<Rightarrow> error + (int \<times> int)" where
  "rank_histogram_to_col_and_char hist mzx_pal mzx_chars =
     (case py_index (ranking hist) 0 of
        Inl e \<Rightarrow> Inl e
      | Inr winner \<Rightarrow>
     (case py_index (ranking hist) 1 of
        Inl e \<Rightarrow> Inl e
      | Inr second \<Rightarrow>
     (let winner_col = int (snd winner) mod 16;
          second_col = int (snd second) mod 16
      in case winner_ratio winner second of
        Inl e \<Rightarrow> Inl e
      | Inr ratio \<Rightarrow>
     (case py_index mzx_chars (winner_char_index ratio mzx_chars) of
        Inl e \<Rightarrow> Inl e
      | Inr char \<Rightarrow> Inr (char, winner_col + (second_col * 16))))))"

subsection \<open>The imaging library\<close>

text \<open>
  A quantised image (mode \<^verbatim>\<open>P\<close>) is its rows of palette indices. \<^verbatim>\<open>crop\<close> returns the
  pixels of the box, left and upper edge included, right and lower edge excluded, a pixel
  outside the image being 0; \<^verbatim>\<open>histogram\<close> counts the pixels of each of the 256 index
  values. The boxes of the program have their right edge at or after the left one and
  their lower edge at or below the upper one as long as the cell size is not negative.
\<close>

type_synonym qimage = "byte list list"

definition getpixel :: "qimage \<Rightarrow> int \<Rightarrow> int \<Rightarrow> byte" where
  "getpixel im x y =
     (if 0 \<le> y \<and> y < int (length im) \<and> 0 \<le> x \<and> x < int (length (im ! nat y))
      then im ! nat y ! nat x else 0)"

definition crop :: "qimage \<Rightarrow> int \<times> int \<times> int \<times> int \<Rightarrow> qimage" where
  "crop im box =
     (case box of (lx, uy, rx, dy) \<Rightarrow>
        map (\<lambda>y. map (\<lambda>x. getpixel im x y) [lx..rx - 1]) [uy..dy - 1])"

definition histogram :: "qimage \<Rightarrow> nat list" where
  "histogram im = map (\<lambda>v. length (filter (\<lambda>p. unat p = v) (concat im))) [0..<256]"

text \<open>
  What the program asks of the library on a decoded picture of type \<open>'im\<close>: decoding a
  file, resizing, the mode string, storing a flat palette in a palette image, and the
  conversion to mode \<^verbatim>\<open>P\<close> against such a palette (with or without dithering).
\<close>

record 'im pillow =
  image_open :: "byte list \<Rightarrow> error + 'im"
  image_resize :: "'im \<Rightarrow> int \<times> int \<Rightarrow> error + 'im"
  image_mode :: "'im \<Rightarrow> string"
  image_putpalette :: "int list \<Rightarrow> error + int list"
  image_convert :: "'im \<Rightarrow> int \<Rightarrow> int list \<Rightarrow> error + qimage"

text \<open>
  An instance for running the program on concrete inputs: every picture is black and is
  known by its size alone. As the library does, it refuses to decode an empty file and to
  resize to a width or height below 1.
\<close>

definition black_pillow :: "(int \<times> int) pillow" where
  "black_pillow =
     \<lparr>image_open = (\<lambda>content. if content = [] then Inl LibraryError else Inr (1, 1)),
      image_resize = (\<lambda>im sz. if fst sz < 1 \<or> snd sz < 1 then Inl ValueError else Inr sz),
      image_mode = (\<lambda>im. ''RGB''),
      image_putpalette = (\<lambda>data. Inr data),
      image_convert = (\<lambda>im dither data. Inr (replicate (nat (snd im)) (replicate (nat (fst im)) 0)))\<rparr>"

text \<open>The palette image \<^verbatim>\<open>pp\<close>: its mode and its flat palette.\<close>

record palimage =
  pal_mode :: string
  pal_data :: "int list"

definition quantize_image :: "'im pillow \<Rightarrow> 'im \<Rightarrow> palimage \<Rightarrow> string \<Rightarrow> error + qimage" where
  "quantize_image P src dst dither =
     (if pal_mode dst \<noteq> ''P'' then Inl AssertionError
      else if \<not> (image_mode P src = ''RGB'' \<or> image_mode P src = ''L'') then Inl AssertionError
      else image_convert P src (if dither \<noteq> [] then 1 else 0) (pal_data dst))"

subsection \<open>The layer builder\<close>

text \<open>
  The body of the two loops of \<^verbatim>\<open>mad_science\<close> for the cell in column \<open>x\<close> of row
  \<open>y\<close>: the histogram of the cropped block (lines 91 to 96), then the reducer (line 97).
\<close>

definition cell_histogram :: "args \<Rightarrow> qimage \<Rightarrow> int \<times> int \<Rightarrow> nat list" where
  "cell_histogram a newim yx =
     (case yx of (y, x) \<Rightarrow>
       (let lx = x * char_width a;
            uy = y * char_height a;
            rx = lx + char_width a;
            dy = uy + char_height a;
            subim = crop newim (lx, uy, rx, dy)
        in histogram subim))"

definition cell :: "args \<Rightarrow> qimage \<Rightarrow> int list list \<Rightarrow> int list \<Rightarrow> int \<times> int \<Rightarrow> error + (int \<times> int)" where
  "cell a newim mzx_pal mzx_chars yx =
     rank_histogram_to_col_and_char (cell_histogram a newim yx) mzx_pal mzx_chars"

text \<open>\<^verbatim>\<open>range(n)\<close> is \<open>[0..n - 1]\<close>, empty for \<open>n \<le> 0\<close>; the cells are visited row by row.\<close>

definition cells :: "args \<Rightarrow> (int \<times> int) list" where
  "cells a = concat (map (\<lambda>y. map (\<lambda>x. (y, x)) [0..width a - 1]) [0..height a - 1])"

definition mad_science ::
  "'im pillow \<Rightarrow> args \<Rightarrow> 'im \<Rightarrow> int list \<Rightarrow> int list list \<Rightarrow> int list \<Rightarrow> error + (int \<times> int) list" where
  "mad_science P a im pil_pal mzx_pal mzx_chars =
     (case image_resize P im (width a * char_width a, height a * char_height a) of
        Inl e \<Rightarrow> Inl e
      | Inr im2 \<Rightarrow>
     (case image_putpalette P (diffusion_table pil_pal) of
        Inl e \<Rightarrow> Inl e
      | Inr table \<Rightarrow>
     (let pp = \<lparr>pal_mode = ''P'', pal_data = table\<rparr>
      in case quantize_image P im2 pp ''dither'' of
        Inl e \<Rightarrow> Inl e
      | Inr newim \<Rightarrow> map_result (cell a newim mzx_pal mzx_chars) (cells a))))"

subsection \<open>The binary writer\<close>

text \<open>
  \<^verbatim>\<open>struct\<close> with the byte order mark \<^verbatim>\<open><\<close> as first character of the format:
  little endian, standard sizes, no alignment. A value is a \<^verbatim>\<open>bytes\<close> object or an
  integer.
\<close>

datatype pyval = PyBytes "byte list" | PyInt int

definition le_bytes :: "nat \<Rightarrow> int \<Rightarrow> byte list" where
  "le_bytes n v = map (\<lambda>i. word_of_int (v div 256 ^ i)) [0..<n]"

definition pack_uint :: "nat \<Rightarrow> pyval \<Rightarrow> error + byte list" where
  "pack_uint n v =
     (case v of
        PyInt i \<Rightarrow> if 0 \<le> i \<and> i < 256 ^ n then Inr (le_bytes n i) else Inl StructError
      | PyBytes bs \<Rightarrow> Inl StructError)"

definition pack_one :: "char \<Rightarrow> pyval \<Rightarrow> error + byte list" where
  "pack_one f v =
     (if f = CHR ''c'' then
        (case v of PyBytes bs \<Rightarrow> if length bs = 1 then Inr bs else Inl StructError
                 | PyInt i \<Rightarrow> Inl StructError)
      else if f = CHR ''B'' then pack_uint 1 v
      else if f = CHR ''H'' then pack_uint 2 v
      else if f = CHR ''I'' then pack_uint 4 v
      else Inl StructError)"

definition item_size :: "char \<Rightarrow> nat" where
  "item_size f =
     (if f = CHR ''c'' \<or> f = CHR ''B'' \<or> f = CHR ''x'' then 1
      else if f = CHR ''H'' then 2 else if f = CHR ''I'' then 4 else 0)"

fun pack_items :: "string \<Rightarrow> pyval list \<Rightarrow> error + byte list" where
  "pack_items [] [] = Inr []"
| "pack_items [] (v # vs) = Inl StructError"
| "pack_items (f # fs) vs =
     (if f = CHR ''x'' then
        (case pack_items fs vs of Inl e \<Rightarrow> Inl e | Inr rest \<Rightarrow> Inr (0 # rest))
      else
        (case vs of
           [] \<Rightarrow> Inl StructError
         | v # vs' \<Rightarrow>
             (case pack_one f v of
                Inl e \<Rightarrow> Inl e
              | Inr bs \<Rightarrow>
                  (case pack_items fs vs' of Inl e \<Rightarrow> Inl e | Inr rest \<Rightarrow> Inr (bs @ rest)))))"

definition calcsize :: "string \<Rightarrow> nat" where
  "calcsize fmt = (case fmt of [] \<Rightarrow> 0 | c # fs \<Rightarrow> sum_list (map item_size fs))"

definition pack :: "string \<Rightarrow> pyval list \<Rightarrow> error + byte list" where
  "pack fmt vs = (case fmt of [] \<Rightarrow> pack_items [] vs | c # fs \<Rightarrow> pack_items fs vs)"

text \<open>\<^verbatim>\<open>bytearray(xs)\<close> on a list of integers: each must be in \<^verbatim>\<open>range(256)\<close>.\<close>

definition bytearray :: "int list \<Rightarrow> error + byte list" where
  "bytearray xs =
     map_result (\<lambda>b. if 0 \<le> b \<and> b < 256 then Inr (word_of_int b) else Inl ValueError) xs"

definition header_format :: string where
  "header_format = ''<ccccHHIBBBBBxxx''"

text \<open>
  \<^verbatim>\<open>write_mzm\<close>: the header is packed and the layer flattened before the output file is
  opened; opening it for writing creates or truncates it, and both writes go to the
  open file.
\<close>

definition write_mzm :: "args \<Rightarrow> (int \<times> int) list \<Rightarrow> world \<Rightarrow> (error + unit) \<times> world" where
  "write_mzm a layer w =
     (if calcsize header_format \<noteq> 20 then (Inl AssertionError, w)
      else
        (case pack header_format
                [PyBytes [0x4D], PyBytes [0x5A], PyBytes [0x4D], PyBytes [0x33],
                 PyInt (width a), PyInt (height a),
                 PyInt 0, PyInt 0, PyInt 1, PyInt 0, PyInt 0x5c, PyInt 2] of
           Inl e \<Rightarrow> (Inl e, w)
         | Inr header \<Rightarrow>
        (case bytearray (concat (map (\<lambda>pair. [fst pair, snd pair]) layer)) of
           Inl e \<Rightarrow> (Inl e, w)
         | Inr file_bytes \<Rightarrow>
             if \<not> writable w (output_arg a) then (Inl OSError, w)
             else (Inr (), w\<lparr>files := (files w)(output_arg a \<mapsto> header @ file_bytes)\<rparr>))))"

subsection \<open>The program\<close>

definition main :: "'im pillow \<Rightarrow> interpreter \<Rightarrow> args \<Rightarrow> world \<Rightarrow> (error + unit) \<times> world" where
  "main P U a w =
     (case get_palette a w of
        Inl e \<Rightarrow> (Inl e, w)
      | Inr mzx_pal \<Rightarrow>
     (let pil_pal = make_8bit_palette mzx_pal
      in case get_chars U a of
        Inl e \<Rightarrow> (Inl e, w)
      | Inr chars' \<Rightarrow>
     (case files w (input_arg a) of
        None \<Rightarrow> (Inl FileNotFoundError, w)
      | Some content \<Rightarrow>
     (case image_open P content of
        Inl e \<Rightarrow> (Inl e, w)
      | Inr im \<Rightarrow>
     (case mad_science P a im pil_pal mzx_pal chars' of
        Inl e \<Rightarrow> (Inl e, w)
      | Inr layer \<Rightarrow> write_mzm a layer w)))))"

section \<open>Auxiliary facts\<close>

subsection \<open>Rounding\<close>

lemma round_half_even_of_int: "round_half_even (of_int k) = k"
  by (simp add: round_half_even_def)

lemma round_half_even_floor: "\<lfloor>q\<rfloor> \<le> round_half_even q \<and> round_half_even q \<le> \<lfloor>q\<rfloor> + 1"
  by (simp add: round_half_even_def Let_def)

lemma round_half_even_mono:
  assumes "a \<le> b"
  shows "round_half_even a \<le> round_half_even b"
proof (cases "\<lfloor>a\<rfloor> < \<lfloor>b\<rfloor>")
  case True
  have "round_half_even a \<le> \<lfloor>a\<rfloor> + 1" using round_half_even_floor [of a] by simp
  also have "\<dots> \<le> \<lfloor>b\<rfloor>" using True by simp
  also have "\<dots> \<le> round_half_even b" using round_half_even_floor [of b] by simp
  finally show ?thesis .
next
  case False
  with assms have eq: "\<lfloor>a\<rfloor> = \<lfloor>b\<rfloor>" using floor_mono [of a b] by simp
  from assms have "a - of_int \<lfloor>a\<rfloor> \<le> b - of_int \<lfloor>a\<rfloor>" by simp
  then show ?thesis
    unfolding round_half_even_def Let_def eq [symmetric] by auto
qed

lemma expo_bounds:
  assumes "0 < q"
  shows "2 powi (expo q) \<le> q \<and> q < 2 powi (expo q + 1)"
proof (cases "1 \<le> q")
  case True
  define n where "n = \<lfloor>q\<rfloor>"
  have n: "1 \<le> n" using True by (simp add: n_def le_floor_iff)
  have e: "expo q = bitlen n - 1" using True assms by (simp add: expo_def n_def)
  from bitlen_bounds [of n] n
  have b: "2 ^ nat (bitlen n - 1) \<le> n" "n < 2 ^ nat (bitlen n)" by simp_all
  have bl: "1 \<le> bitlen n" using b(2) n by (cases "bitlen n \<le> 0") auto
  have "(2::rat) powi (bitlen n - 1) = of_int (2 ^ nat (bitlen n - 1))"
    using bl by (simp add: power_int_def)
  also have "\<dots> \<le> of_int n" using b(1) by (simp only: of_int_le_iff)
  also have "\<dots> \<le> q" by (simp add: n_def)
  finally have lo: "2 powi (expo q) \<le> q" by (simp add: e)
  have "n + 1 \<le> 2 ^ nat (bitlen n)" using b(2) by simp
  then have "(of_int (n + 1) :: rat) \<le> of_int (2 ^ nat (bitlen n))" by (simp only: of_int_le_iff)
  moreover have "q < of_int (n + 1)" using floor_correct [of q] by (simp add: n_def)
  moreover have "(2::rat) powi (bitlen n - 1 + 1) = of_int (2 ^ nat (bitlen n))"
    using bl by (simp add: power_int_def)
  ultimately have "q < 2 powi (expo q + 1)" by (simp add: e)
  with lo show ?thesis by simp
next
  case False
  then have q1: "q < 1" by simp
  define r where "r = 1 / q"
  define m where "m = \<lceil>r\<rceil> - 1"
  have r1: "1 < r" using assms q1 by (simp add: r_def)
  have m1: "1 \<le> m" using r1 by (simp add: m_def less_ceiling_iff)
  have mr: "of_int m < r" "r \<le> of_int m + 1"
    using ceiling_correct [of r] by (simp_all add: m_def)
  have e: "expo q = - bitlen m" using q1 assms by (simp add: expo_def m_def r_def)
  from bitlen_bounds [of m] m1
  have b: "2 ^ nat (bitlen m - 1) \<le> m" "m < 2 ^ nat (bitlen m)" by simp_all
  have bl: "1 \<le> bitlen m" using b(2) m1 by (cases "bitlen m \<le> 0") auto
  have "r \<le> of_int (m + 1)" using mr(2) by simp
  also have "(of_int (m + 1) :: rat) \<le> of_int (2 ^ nat (bitlen m))"
    using b(2) by (simp only: of_int_le_iff)
  also have "(of_int (2 ^ nat (bitlen m)) :: rat) = 2 powi (bitlen m)"
    using bl by (simp add: power_int_def)
  finally have "r \<le> 2 powi (bitlen m)" .
  then have lo: "2 powi (expo q) \<le> q"
    using assms by (simp add: e r_def power_int_minus field_simps)
  have "(2::rat) powi (bitlen m - 1) = of_int (2 ^ nat (bitlen m - 1))"
    using bl by (simp add: power_int_def)
  also have "\<dots> \<le> of_int m" using b(1) by (simp only: of_int_le_iff)
  also have "\<dots> < r" by (rule mr(1))
  finally have "2 powi (bitlen m - 1) < 1 / q" by (simp add: r_def)
  then have "q * 2 powi (bitlen m - 1) < 1"
    using assms by (simp add: pos_less_divide_eq mult.commute)
  then have "q < 1 / 2 powi (bitlen m - 1)"
    by (simp add: pos_less_divide_eq)
  moreover have "(2::rat) powi (expo q + 1) = 1 / 2 powi (bitlen m - 1)"
    by (simp add: e power_int_minus_divide [symmetric])
  ultimately have "q < 2 powi (expo q + 1)" by simp
  with lo show ?thesis by simp
qed


lemma expo_unique:
  assumes "0 < q" "2 powi e \<le> q" "q < 2 powi (e + 1)"
  shows "expo q = e"
proof (rule ccontr)
  assume ne: "expo q \<noteq> e"
  from expo_bounds [OF assms(1)]
  have b: "2 powi (expo q) \<le> q" "q < 2 powi (expo q + 1)" by simp_all
  show False
  proof (cases "expo q < e")
    case True
    then have "(2::rat) powi (expo q + 1) \<le> 2 powi e"
      by (intro power_int_increasing) simp_all
    with b(2) assms(2) show False by simp
  next
    case False
    with ne have "e + 1 \<le> expo q" by simp
    then have "(2::rat) powi (e + 1) \<le> 2 powi (expo q)"
      by (intro power_int_increasing) simp_all
    with b(1) assms(3) show False by simp
  qed
qed

lemma fl_pos:
  "0 < q \<Longrightarrow> fl q = of_int (round_half_even (q / 2 powi (expo q - 52))) * 2 powi (expo q - 52)"
  by (simp add: fl_def Let_def)

lemma fl_lower:
  assumes "0 < q"
  shows "2 powi (expo q) \<le> fl q"
proof -
  define u :: rat where "u = 2 powi (expo q - 52)"
  have u: "0 < u" by (simp add: u_def)
  have split: "(2::rat) powi (expo q) = of_int (2 ^ 52) * u"
    using power_int_add [of "2::rat" 52 "expo q - 52"] by (simp add: u_def)
  have "of_int (2 ^ 52) * u \<le> q"
    using expo_bounds [OF assms] split by simp
  then have "of_int (2 ^ 52) \<le> q / u" using u by (simp add: pos_le_divide_eq)
  from round_half_even_mono [OF this]
  have "2 ^ 52 \<le> round_half_even (q / u)" by (simp only: round_half_even_of_int)
  then have "(of_int (2 ^ 52) :: rat) \<le> of_int (round_half_even (q / u))"
    by (simp only: of_int_le_iff)
  then have "of_int (2 ^ 52) * u \<le> of_int (round_half_even (q / u)) * u"
    using u by (simp only: mult_le_cancel_right_pos)
  then show ?thesis using assms by (simp only: fl_pos split u_def)
qed

lemma fl_upper:
  assumes "0 < q"
  shows "fl q \<le> 2 powi (expo q + 1)"
proof -
  define u :: rat where "u = 2 powi (expo q - 52)"
  have u: "0 < u" by (simp add: u_def)
  have split: "(2::rat) powi (expo q + 1) = of_int (2 ^ 53) * u"
    using power_int_add [of "2::rat" 53 "expo q - 52"] by (simp add: u_def add.commute)
  have "q \<le> of_int (2 ^ 53) * u"
    using expo_bounds [OF assms] split by simp
  then have "q / u \<le> of_int (2 ^ 53)" using u by (simp add: pos_divide_le_eq)
  from round_half_even_mono [OF this]
  have "round_half_even (q / u) \<le> 2 ^ 53" by (simp only: round_half_even_of_int)
  then have "(of_int (round_half_even (q / u)) :: rat) \<le> of_int (2 ^ 53)"
    by (simp only: of_int_le_iff)
  then have "of_int (round_half_even (q / u)) * u \<le> of_int (2 ^ 53) * u"
    using u by (simp only: mult_le_cancel_right_pos)
  then show ?thesis using assms by (simp only: fl_pos split u_def)
qed

lemma fl_mono_pos:
  assumes "0 < a" "a \<le> b"
  shows "fl a \<le> fl b"
proof -
  have b: "0 < b" using assms by simp
  note ba = expo_bounds [OF assms(1)] and bb = expo_bounds [OF b]
  have le: "expo a \<le> expo b"
  proof (rule ccontr)
    assume "\<not> expo a \<le> expo b"
    then have "expo b + 1 \<le> expo a" by simp
    then have "(2::rat) powi (expo b + 1) \<le> 2 powi (expo a)"
      by (intro power_int_increasing) simp_all
    with ba bb assms(2) show False by simp
  qed
  show ?thesis
  proof (cases "expo a = expo b")
    case True
    define u :: rat where "u = 2 powi (expo b - 52)"
    have u: "0 < u" by (simp add: u_def)
    have "a / u \<le> b / u" using assms(2) u by (simp add: divide_right_mono)
    from round_half_even_mono [OF this]
    have "(of_int (round_half_even (a / u)) :: rat) \<le> of_int (round_half_even (b / u))"
      by (simp only: of_int_le_iff)
    then have "of_int (round_half_even (a / u)) * u \<le> of_int (round_half_even (b / u)) * u"
      using u by (simp only: mult_le_cancel_right_pos)
    then show ?thesis using assms(1) b by (simp only: fl_pos True u_def)
  next
    case False
    with le have "expo a + 1 \<le> expo b" by simp
    then have "(2::rat) powi (expo a + 1) \<le> 2 powi (expo b)"
      by (intro power_int_increasing) simp_all
    with fl_upper [OF assms(1)] fl_lower [OF b] show ?thesis by simp
  qed
qed

lemma fl_zero: "fl 0 = 0"
  by (simp add: fl_def)

lemma fl_nonneg: "0 \<le> q \<Longrightarrow> 0 \<le> fl q"
proof (cases "q = 0")
  case True
  then show ?thesis by (simp add: fl_zero)
next
  case False
  assume "0 \<le> q"
  with False have q: "0 < q" by simp
  have "(0::rat) < 2 powi (expo q)" by simp
  then show ?thesis using fl_lower [OF q] by linarith
qed

lemma fl_mono:
  assumes "0 \<le> a" "a \<le> b"
  shows "fl a \<le> fl b"
proof (cases "a = 0")
  case True
  with assms fl_nonneg [of b] show ?thesis by (simp add: fl_zero)
next
  case False
  with assms(1) have "0 < a" by simp
  from fl_mono_pos [OF this assms(2)] show ?thesis .
qed

lemma fl_exact:
  assumes "0 < k" "k < 2 ^ 53"
  shows "fl (of_int k * 2 powi j) = of_int k * 2 powi j"
proof -
  define q :: rat where "q = of_int k * 2 powi j"
  have q: "0 < q" using assms(1) by (simp add: q_def)
  have "of_int k < (of_int (2 ^ 53) :: rat)" using assms(2) by (simp only: of_int_less_iff)
  then have "q < of_int (2 ^ 53) * 2 powi j" by (simp add: q_def)
  also have "\<dots> = 2 powi (53 + j)"
    using power_int_add [of "2::rat" 53 j] by simp
  finally have qlt: "q < 2 powi (53 + j)" .
  have "expo q < 53 + j"
  proof (rule ccontr)
    assume "\<not> expo q < 53 + j"
    then have "(2::rat) powi (53 + j) \<le> 2 powi (expo q)"
      by (intro power_int_increasing) simp_all
    with expo_bounds [OF q] qlt show False by simp
  qed
  then have d: "0 \<le> j - (expo q - 52)" by simp
  define n where "n = nat (j - (expo q - 52))"
  define u :: rat where "u = 2 powi (expo q - 52)"
  have u: "0 < u" by (simp add: u_def)
  have "(2::rat) powi j = 2 powi (j - (expo q - 52)) * 2 powi (expo q - 52)"
    using power_int_add [of "2::rat" "j - (expo q - 52)" "expo q - 52"] by simp
  also have "(2::rat) powi (j - (expo q - 52)) = 2 ^ n"
    using d by (simp add: n_def power_int_def)
  finally have pj: "(2::rat) powi j = 2 ^ n * u" by (simp only: u_def)
  have qu: "q = of_int (k * 2 ^ n) * u" by (simp add: q_def pj)
  then have "q / u = of_int (k * 2 ^ n)" using u by simp
  then have "round_half_even (q / u) = k * 2 ^ n"
    by (simp only: round_half_even_of_int)
  then have "fl q = of_int (k * 2 ^ n) * u"
    using q by (simp only: fl_pos u_def)
  with qu have "fl q = q" by simp
  then show ?thesis by (simp only: q_def)
qed

lemma fl_of_int:
  assumes "0 \<le> m" "m \<le> 2 ^ 53"
  shows "fl (of_int m) = of_int m"
proof -
  consider "m = 0" | "0 < m" "m < 2 ^ 53" | "m = 2 ^ 53" using assms by fastforce
  then show ?thesis
  proof cases
    case 1
    then show ?thesis by (simp add: fl_zero)
  next
    case 2
    from fl_exact [OF 2, of 0] show ?thesis by simp
  next
    case 3
    from fl_exact [of 1 53] show ?thesis by (simp add: 3)
  qed
qed

lemma fl_half_int:
  assumes "0 \<le> m" "m \<le> 2 ^ 53"
  shows "fl (of_int m / 2) = of_int m / 2"
proof -
  consider "m = 0" | "0 < m" "m < 2 ^ 53" | "m = 2 ^ 53" using assms by fastforce
  then show ?thesis
  proof cases
    case 1
    then show ?thesis by (simp add: fl_zero)
  next
    case 2
    from fl_exact [OF 2, of "- 1"] show ?thesis by simp
  next
    case 3
    from fl_exact [of 1 52] show ?thesis by (simp add: 3)
  qed
qed

lemma fl_one: "fl 1 = 1"
  using fl_of_int [of 1] by simp

lemma fl_half: "fl (1 / 2) = 1 / 2"
  using fl_half_int [of 1] by simp

subsection \<open>The ranking of the bins\<close>

lemma insort_key_keeps_order:
  assumes "sorted_wrt (\<lambda>a b. f a < f b \<or> (f a = f b \<and> Q a b)) zs"
    and "\<forall>y \<in> set zs. Q x y"
  shows "sorted_wrt (\<lambda>a b. f a < f b \<or> (f a = f b \<and> Q a b)) (insort_key f x zs)"
  using assms
proof (induction zs)
  case Nil
  then show ?case by simp
next
  case (Cons z zs)
  show ?case
  proof (cases "f x \<le> f z")
    case True
    have "f x < f y \<or> (f x = f y \<and> Q x y)" if "y \<in> set (z # zs)" for y
    proof -
      have "f z \<le> f y" using that Cons.prems(1) by auto
      with True have "f x \<le> f y" by simp
      moreover have "Q x y" using that Cons.prems(2) by auto
      ultimately show ?thesis by auto
    qed
    with True Cons.prems(1) show ?thesis by simp
  next
    case False
    have "sorted_wrt (\<lambda>a b. f a < f b \<or> (f a = f b \<and> Q a b)) (insort_key f x zs)"
      using Cons.IH Cons.prems by simp
    moreover have "f z < f x" using False by simp
    ultimately show ?thesis using False Cons.prems(1) by (auto simp: set_insort_key)
  qed
qed

lemma sort_key_keeps_order:
  assumes "sorted_wrt Q ys"
  shows "sorted_wrt (\<lambda>a b. f a < f b \<or> (f a = f b \<and> Q a b)) (sort_key f ys)"
  using assms
proof (induction ys)
  case Nil
  then show ?case by simp
next
  case (Cons y ys)
  have "sorted_wrt (\<lambda>a b. f a < f b \<or> (f a = f b \<and> Q a b)) (sort_key f ys)"
    using Cons by simp
  moreover have "\<forall>z \<in> set (sort_key f ys). Q y z" using Cons.prems by simp
  ultimately show ?case
    by (simp add: sort_key_simps insort_key_keeps_order)
qed

lemma ranking_length: "length (ranking hist) = length hist"
  by (simp add: ranking_def sorted_reverse_def)

lemma ranking_set: "set (ranking hist) = {(hist ! i, i) | i. i < length hist}"
proof -
  have "set (ranking hist) = set (zip hist [0..<length hist])"
    by (simp add: ranking_def sorted_reverse_def)
  also have "\<dots> = {(hist ! i, i) | i. i < length hist}"
    by (auto simp: set_zip)
  finally show ?thesis .
qed

lemma ranking_sorted:
  "sorted_wrt (\<lambda>a b. fst b < fst a \<or> (fst b = fst a \<and> snd a < snd b)) (ranking hist)"
proof -
  let ?xs = "zip hist [0..<length hist]"
  have "sorted_wrt (<) (map snd ?xs)" by simp
  then have "sorted_wrt (\<lambda>a b. snd a < snd b) ?xs" by (simp only: sorted_wrt_map)
  then have "sorted_wrt (\<lambda>a b. snd b < snd a) (rev ?xs)" by (simp only: sorted_wrt_rev)
  from sort_key_keeps_order [OF this, of fst]
  have "sorted_wrt (\<lambda>b a. fst b < fst a \<or> (fst b = fst a \<and> snd a < snd b)) (sort_key fst (rev ?xs))" .
  then show ?thesis
    by (simp only: ranking_def sorted_reverse_def sorted_wrt_rev)
qed

lemma ranking_nth:
  assumes "p < length hist"
  shows "snd (ranking hist ! p) < length hist \<and> fst (ranking hist ! p) = hist ! snd (ranking hist ! p)"
proof -
  have "ranking hist ! p \<in> set (ranking hist)" using assms by (simp add: ranking_length)
  then show ?thesis by (auto simp: ranking_set)
qed

lemma ranking_position:
  assumes "j < length hist"
  shows "\<exists>p < length hist. ranking hist ! p = (hist ! j, j)"
proof -
  have "(hist ! j, j) \<in> set (ranking hist)" using assms by (auto simp: ranking_set)
  then show ?thesis by (simp add: in_set_conv_nth ranking_length)
qed

lemma ranking_winner:
  assumes "0 < length hist" "j < length hist"
  shows "hist ! j \<le> fst (ranking hist ! 0) \<and> (hist ! j = fst (ranking hist ! 0) \<longrightarrow> snd (ranking hist ! 0) \<le> j)"
proof -
  from ranking_position [OF assms(2)]
  obtain p where p: "p < length hist" "ranking hist ! p = (hist ! j, j)" by blast
  show ?thesis
  proof (cases "p = 0")
    case True
    with p show ?thesis by simp
  next
    case False
    then have "0 < p" by simp
    from sorted_wrt_nth_less [OF ranking_sorted this, of hist] p(1)
    have "fst (ranking hist ! p) < fst (ranking hist ! 0)
      \<or> (fst (ranking hist ! p) = fst (ranking hist ! 0)
          \<and> snd (ranking hist ! 0) < snd (ranking hist ! p))"
      by (simp add: ranking_length)
    then show ?thesis unfolding p(2) by auto
  qed
qed

lemma ranking_second:
  assumes "1 < length hist" "j < length hist" "j \<noteq> snd (ranking hist ! 0)"
  shows "hist ! j \<le> fst (ranking hist ! 1) \<and> (hist ! j = fst (ranking hist ! 1) \<longrightarrow> snd (ranking hist ! 1) \<le> j)"
proof -
  from ranking_position [OF assms(2)]
  obtain p where p: "p < length hist" "ranking hist ! p = (hist ! j, j)" by blast
  have "p \<noteq> 0"
  proof
    assume "p = 0"
    with p(2) have "snd (ranking hist ! 0) = j" by simp
    with assms(3) show False by simp
  qed
  show ?thesis
  proof (cases "p = 1")
    case True
    with p show ?thesis by simp
  next
    case False
    with \<open>p \<noteq> 0\<close> have "1 < p" by simp
    from sorted_wrt_nth_less [OF ranking_sorted this, of hist] p(1)
    have "fst (ranking hist ! p) < fst (ranking hist ! 1)
      \<or> (fst (ranking hist ! p) = fst (ranking hist ! 1)
          \<and> snd (ranking hist ! 1) < snd (ranking hist ! p))"
      by (simp add: ranking_length)
    then show ?thesis unfolding p(2) by auto
  qed
qed

lemma ranking_first_two:
  assumes "1 < length hist"
  shows "fst (ranking hist ! 1) \<le> fst (ranking hist ! 0) \<and> snd (ranking hist ! 1) \<noteq> snd (ranking hist ! 0)"
proof -
  have "(0::nat) < 1" by simp
  from sorted_wrt_nth_less [OF ranking_sorted this, of hist] assms
  have r: "fst (ranking hist ! 1) < fst (ranking hist ! 0)
    \<or> (fst (ranking hist ! 1) = fst (ranking hist ! 0) \<and> snd (ranking hist ! 0) < snd (ranking hist ! 1))"
    by (simp add: ranking_length)
  have "0 < length hist" using assms by auto
  from ranking_nth [OF this] ranking_nth [OF assms]
  have "fst (ranking hist ! 0) = hist ! snd (ranking hist ! 0)"
    "fst (ranking hist ! 1) = hist ! snd (ranking hist ! 1)" by simp_all
  with r show ?thesis by auto
qed

lemma ranking_winner_pos:
  assumes "0 < sum_list hist"
  shows "0 < fst (ranking hist ! 0)"
proof -
  from assms obtain c where "c \<in> set hist" "0 < c"
    by (metis gr_zeroI sum_list_eq_0_iff less_numeral_extra(3))
  then obtain j where j: "j < length hist" "hist ! j = c" by (auto simp: in_set_conv_nth)
  then have "0 < length hist" by auto
  from ranking_winner [OF this j(1)] j(2) \<open>0 < c\<close> show ?thesis by simp
qed

subsection \<open>Repeated lists\<close>

lemma concat_replicate_nth:
  assumes "i < n * length xs"
  shows "concat (replicate n xs) ! i = xs ! (i mod length xs)"
  using assms
proof (induction n arbitrary: i)
  case 0
  then show ?case by simp
next
  case (Suc n)
  show ?case
  proof (cases "i < length xs")
    case True
    then show ?thesis by (simp add: nth_append)
  next
    case False
    with Suc.prems have "i - length xs < n * length xs" by simp
    from Suc.IH [OF this] False show ?thesis
      by (simp add: nth_append le_mod_geq)
  qed
qed

lemma length_concat_replicate: "length (concat (replicate n xs)) = n * length xs"
  by (induction n) simp_all

lemma length_concat_triples:
  "\<forall>c \<in> set pal. length c = 3 \<Longrightarrow> length (concat pal) = 3 * length pal"
  by (induction pal) simp_all

subsection \<open>The reducer on a ranked histogram\<close>

lemma reducer_unfold:
  assumes "2 \<le> length hist"
  shows "rank_histogram_to_col_and_char hist mzx_pal mzx_chars =
    (case winner_ratio (ranking hist ! 0) (ranking hist ! 1) of
       Inl e \<Rightarrow> Inl e
     | Inr ratio \<Rightarrow>
         (case py_index mzx_chars (winner_char_index ratio mzx_chars) of
            Inl e \<Rightarrow> Inl e
          | Inr char \<Rightarrow>
              Inr (char, int (snd (ranking hist ! 0)) mod 16
                         + int (snd (ranking hist ! 1)) mod 16 * 16)))"
proof -
  have h0: "py_index (ranking hist) 0 = Inr (ranking hist ! 0)"
    using assms by (auto simp: py_index_def ranking_length)
  have h1: "py_index (ranking hist) 1 = Inr (ranking hist ! 1)"
    using assms by (auto simp: py_index_def ranking_length)
  show ?thesis
    by (simp only: rank_histogram_to_col_and_char_def h0 h1 sum.case Let_def)
qed

lemma winner_ratio_value:
  assumes "0 < fst w"
  shows "winner_ratio w s = Inr (fl (of_nat (fst w) / (of_nat (fst w) + of_nat (fst s))))"
  using assms by (simp add: winner_ratio_def int_truediv_def)

lemma winner_ratio_bounds:
  assumes "0 < fst w" "fst s \<le> fst w"
  shows "1 / 2 \<le> fl (of_nat (fst w) / (of_nat (fst w) + of_nat (fst s)))
       \<and> fl (of_nat (fst w) / (of_nat (fst w) + of_nat (fst s))) \<le> 1"
proof -
  define a :: rat where "a = of_nat (fst w)"
  define b :: rat where "b = of_nat (fst s)"
  have a: "0 < a" using assms(1) by (simp add: a_def)
  have b: "0 \<le> b" "b \<le> a" using assms(2) by (simp_all add: a_def b_def)
  have lo: "1 / 2 \<le> a / (a + b)" using a b by (simp add: field_simps)
  have hi: "a / (a + b) \<le> 1" using a b by (simp add: field_simps)
  have "fl (1 / 2) \<le> fl (a / (a + b))" using lo by (intro fl_mono) simp_all
  moreover have "fl (a / (a + b)) \<le> fl 1"
    using hi a b by (intro fl_mono) simp_all
  ultimately show ?thesis by (simp add: fl_half fl_one a_def b_def)
qed

lemma winner_char_index_bounds:
  assumes "1 / 2 \<le> r" "r \<le> 1" "1 \<le> length cs" "length cs \<le> 2 ^ 53"
  shows "round_half_even (of_int (int (length cs) - 1) / 2) \<le> winner_char_index r cs
       \<and> winner_char_index r cs \<le> int (length cs) - 1
       \<and> 0 \<le> winner_char_index r cs"
proof -
  define m where "m = int (length cs) - 1"
  have "int (length cs) \<le> int (2 ^ 53)" using assms(4) by (simp only: of_nat_le_iff)
  then have m: "0 \<le> m" "m \<le> 2 ^ 53" using assms(3) by (auto simp: m_def)
  have flm: "fl (of_int m) = of_int m" using m by (rule fl_of_int)
  have mq: "(0::rat) \<le> of_int m" using m(1) by simp
  have "of_int m / 2 \<le> r * of_int m"
    using mult_right_mono [OF assms(1) mq] by simp
  moreover have "(0::rat) \<le> of_int m / 2" using mq by simp
  ultimately have "fl (of_int m / 2) \<le> fl (r * of_int m)" by (intro fl_mono)
  then have lo: "of_int m / 2 \<le> fl (r * of_int m)" using m by (simp only: fl_half_int)
  have "r * of_int m \<le> of_int m"
    using mult_right_mono [OF assms(2) mq] by simp
  moreover have "0 \<le> r * of_int m" using assms(1) mq by simp
  ultimately have "fl (r * of_int m) \<le> fl (of_int m)" by (intro fl_mono)
  then have hi: "fl (r * of_int m) \<le> of_int m" by (simp only: flm)
  have idx: "winner_char_index r cs = round_half_even (fl (r * of_int m))"
    by (simp only: winner_char_index_def py_round_def float_mul_int_def m_def [symmetric] flm)
  from round_half_even_mono [OF lo] have 1: "round_half_even (of_int m / 2) \<le> winner_char_index r cs"
    by (simp only: idx)
  from round_half_even_mono [OF hi] have 2: "winner_char_index r cs \<le> m"
    by (simp only: idx round_half_even_of_int)
  have "(0::rat) \<le> of_int m / 2" using mq by simp
  from round_half_even_mono [OF this] have "0 \<le> round_half_even (of_int m / 2)"
    using round_half_even_of_int [of 0] by simp
  with 1 2 show ?thesis by (simp add: m_def)
qed

lemma reducer_positive:
  assumes "2 \<le> length hist" "0 < sum_list hist" "1 \<le> length cs" "length cs \<le> 2 ^ 53"
  shows "\<exists>ratio. winner_ratio (ranking hist ! 0) (ranking hist ! 1) = Inr ratio
    \<and> 1 / 2 \<le> ratio \<and> ratio \<le> 1
    \<and> round_half_even (of_int (int (length cs) - 1) / 2) \<le> winner_char_index ratio cs
    \<and> 0 \<le> winner_char_index ratio cs
    \<and> winner_char_index ratio cs < int (length cs)
    \<and> rank_histogram_to_col_and_char hist pal cs =
        Inr (cs ! nat (winner_char_index ratio cs),
             int (snd (ranking hist ! 0)) mod 16 + int (snd (ranking hist ! 1)) mod 16 * 16)"
proof -
  let ?w = "ranking hist ! 0" and ?s = "ranking hist ! 1"
  define ratio where "ratio = fl (of_nat (fst ?w) / (of_nat (fst ?w) + of_nat (fst ?s)))"
  have w: "0 < fst ?w" using assms(2) by (rule ranking_winner_pos)
  have s: "fst ?s \<le> fst ?w" using ranking_first_two [of hist] assms(1) by simp
  have r: "winner_ratio ?w ?s = Inr ratio"
    using winner_ratio_value [OF w] by (simp add: ratio_def)
  have rb: "1 / 2 \<le> ratio" "ratio \<le> 1"
    using winner_ratio_bounds [OF w s] by (simp_all add: ratio_def)
  note ib = winner_char_index_bounds [OF rb assms(3,4)]
  have px: "py_index cs (winner_char_index ratio cs) = Inr (cs ! nat (winner_char_index ratio cs))"
    using ib by (simp add: py_index_def)
  have "rank_histogram_to_col_and_char hist pal cs =
        Inr (cs ! nat (winner_char_index ratio cs),
             int (snd ?w) mod 16 + int (snd ?s) mod 16 * 16)"
    by (simp only: reducer_unfold [OF assms(1)] r px sum.case)
  with r rb ib show ?thesis by auto
qed

lemma reducer_zero:
  assumes "2 \<le> length hist" "sum_list hist = 0"
  shows "rank_histogram_to_col_and_char hist pal cs = Inl ZeroDivisionError"
proof -
  have z: "hist ! j = 0" if "j < length hist" for j
    using assms(2) that by (simp add: sum_list_eq_0_iff)
  have "0 < length hist" "1 < length hist" using assms(1) by auto
  from ranking_nth [OF this(1)] ranking_nth [OF this(2)]
  have "fst (ranking hist ! 0) = 0" "fst (ranking hist ! 1) = 0" by (simp_all add: z)
  then have "winner_ratio (ranking hist ! 0) (ranking hist ! 1) = Inl ZeroDivisionError"
    by (simp add: winner_ratio_def int_truediv_def)
  then show ?thesis by (simp only: reducer_unfold [OF assms(1)] sum.case)
qed

subsection \<open>The palette loop\<close>

lemma py_index_nat:
  "py_index xs (int j) = (if j < length xs then Inr (xs ! j) else Inl IndexError)"
  by (simp add: py_index_def)

lemma palette_loop_short:
  "j \<le> length k \<Longrightarrow> length k < j + 3 * n \<Longrightarrow> palette_loop n (int j) k pal = Inl IndexError"
proof (induction n arbitrary: j pal)
  case 0
  then show ?case by simp
next
  case (Suc n)
  have j1: "int j + 1 = int (j + 1)" and j2: "int j + 2 = int (j + 2)"
    and j3: "int j + 3 = int (j + 3)" by simp_all
  show ?case
  proof (cases "j + 2 < length k")
    case True
    with Suc.prems have "j + 3 \<le> length k" "length k < (j + 3) + 3 * n" by simp_all
    from Suc.IH [OF this] True show ?thesis
      by (simp only: palette_loop.simps j1 j2 j3 py_index_nat) simp
  next
    case False
    then show ?thesis
      by (simp only: palette_loop.simps j1 j2 j3 py_index_nat) simp
  qed
qed

lemma palette_loop_full:
  "j + 3 * n \<le> length k \<Longrightarrow>
   palette_loop n (int j) k pal =
     Inr (pal @ map (\<lambda>i. [uint (k ! (j + 3 * i)), uint (k ! (j + 3 * i + 1)),
                            uint (k ! (j + 3 * i + 2))]) [0..<n])"
proof (induction n arbitrary: j pal)
  case 0
  then show ?case by simp
next
  case (Suc n)
  have j1: "int j + 1 = int (j + 1)" and j2: "int j + 2 = int (j + 2)"
    and j3: "int j + 3 = int (j + 3)" by simp_all
  from Suc.prems have lt: "j < length k" "j + 1 < length k" "j + 2 < length k" by simp_all
  from Suc.prems have "(j + 3) + 3 * n \<le> length k" by simp
  note ih = Suc.IH [OF this]
  have shift: "map (\<lambda>i. [uint (k ! (j + 3 * i)), uint (k ! (j + 3 * i + 1)),
                            uint (k ! (j + 3 * i + 2))]) [0..<Suc n]
    = [uint (k ! j), uint (k ! (j + 1)), uint (k ! (j + 2))]
      # map (\<lambda>i. [uint (k ! (j + 3 + 3 * i)), uint (k ! (j + 3 + 3 * i + 1)),
                            uint (k ! (j + 3 + 3 * i + 2))]) [0..<n]"
    by (simp only: map_upt_Suc) (simp add: ac_simps)
  show ?case
    by (simp only: palette_loop.simps j1 j2 j3 py_index_nat lt if_True sum.case ih shift) simp
qed

subsection \<open>The program\<close>

lemma main_palette_error:
  "get_palette a w = Inl e \<Longrightarrow> main P U a w = (Inl e, w)"
  by (simp add: main_def)

subsection \<open>Packing\<close>

lemma bytearray_in_range:
  "\<forall>b \<in> set xs. 0 \<le> b \<and> b < 256 \<Longrightarrow> bytearray xs = Inr (map word_of_int xs)"
  by (induction xs) (simp_all add: bytearray_def)

lemma le_bytes_1: "le_bytes (Suc 0) v = [word_of_int v]"
  by (simp add: le_bytes_def)

lemma le_bytes_2: "le_bytes 2 v = [word_of_int v, word_of_int (v div 256)]"
  by (simp add: le_bytes_def upt_rec)

lemma le_bytes_4:
  "le_bytes 4 v = [word_of_int v, word_of_int (v div 256), word_of_int (v div 65536),
                   word_of_int (v div 16777216)]"
  by (simp add: le_bytes_def upt_rec)

lemma calcsize_header: "calcsize header_format = 20"
  by (simp add: calcsize_def header_format_def item_size_def)

lemma pack_header:
  assumes "0 \<le> x" "x < 65536" "0 \<le> y" "y < 65536"
  shows "pack header_format
           [PyBytes [0x4D], PyBytes [0x5A], PyBytes [0x4D], PyBytes [0x33],
            PyInt x, PyInt y, PyInt 0, PyInt 0, PyInt 1, PyInt 0, PyInt 0x5c, PyInt 2]
       = Inr [0x4D, 0x5A, 0x4D, 0x33,
              word_of_int x, word_of_int (x div 256),
              word_of_int y, word_of_int (y div 256),
              0, 0, 0, 0, 0, 1, 0, 0x5C, 2, 0, 0, 0]"
  using assms
  by (simp add: pack_def header_format_def pack_one_def pack_uint_def
      le_bytes_1 le_bytes_2 le_bytes_4)


lemma length_flat_pairs:
  "length (concat (map (\<lambda>p. [f p, g p]) xs)) = 2 * length xs"
  by (induction xs) simp_all

subsection \<open>Parsing the gradient\<close>

lemma map_result_error:
  "map_result f xs = Inl e \<Longrightarrow> \<exists>x \<in> set xs. f x = Inl e"
  by (induction xs) (auto split: sum.splits)

lemma map_result_fails:
  "x \<in> set xs \<Longrightarrow> f x = Inl e \<Longrightarrow> \<exists>e'. map_result f xs = Inl e'"
  by (induction xs) (auto split: sum.splits)

lemma map_result_all:
  "\<forall>x \<in> set xs. f x = Inr (g x) \<Longrightarrow> map_result f xs = Inr (map g xs)"
  by (induction xs) simp_all

lemma map_result_length:
  "map_result f xs = Inr ys \<Longrightarrow> length ys = length xs"
  by (induction xs arbitrary: ys) (auto split: sum.splits)

subsection \<open>Cells and their histograms\<close>

lemma histogram_length: "length (histogram im) = 256"
  by (simp add: histogram_def)

lemma sum_list_indicator:
  "k < n \<Longrightarrow> sum_list (map (\<lambda>v. if k = v then 1 else 0) [0..<n]) = (1::nat)"
  by (induction n) (auto simp: less_Suc_eq)

lemma sum_list_count_bins:
  "\<forall>p \<in> set ps. f p < n \<Longrightarrow>
   sum_list (map (\<lambda>v. length (filter (\<lambda>p. f p = v) ps)) [0..<n]) = length ps"
proof (induction ps)
  case Nil
  then show ?case by simp
next
  case (Cons p ps)
  have "(\<lambda>v. length (filter (\<lambda>p. f p = v) (p # ps)))
      = (\<lambda>v. (if f p = v then 1 else 0) + length (filter (\<lambda>p. f p = v) ps))"
    by auto
  then have "sum_list (map (\<lambda>v. length (filter (\<lambda>p. f p = v) (p # ps))) [0..<n])
      = sum_list (map (\<lambda>v. if f p = v then 1 else 0) [0..<n])
        + sum_list (map (\<lambda>v. length (filter (\<lambda>p. f p = v) ps)) [0..<n])"
    by (simp only: sum_list_addf)
  also have "sum_list (map (\<lambda>v. if f p = v then 1 else 0) [0..<n]) = (1::nat)"
  proof (rule sum_list_indicator)
    show "f p < n" using Cons.prems by simp
  qed
  also have "sum_list (map (\<lambda>v. length (filter (\<lambda>p. f p = v) ps)) [0..<n]) = length ps"
    using Cons by simp
  finally show ?case by simp
qed

lemma histogram_total: "sum_list (histogram im) = length (concat im)"
proof -
  have "unat p < 256" for p :: byte
  proof -
    have "unat p < 2 ^ LENGTH(8)" by (rule unsigned_less)
    then show ?thesis by simp
  qed
  then have "\<forall>p \<in> set (concat im). unat p < 256" by blast
  from sum_list_count_bins [OF this] show ?thesis by (simp only: histogram_def)
qed

lemma length_concat_rows:
  "length (concat (map (\<lambda>y. map (f y) xs) ys)) = length ys * length xs"
  by (induction ys) simp_all

lemma crop_pixels:
  "length (concat (crop im (lx, uy, rx, dy))) = nat (dy - uy) * nat (rx - lx)"
proof -
  have "nat (dy - 1 - uy + 1) = nat (dy - uy)" "nat (rx - 1 - lx + 1) = nat (rx - lx)" by simp_all
  then show ?thesis by (simp add: crop_def length_concat_rows)
qed

subsection \<open>Integer literals\<close>

lemma python_int_error: "python_int U s = Inl e \<Longrightarrow> e = ValueError"
  by (auto simp: python_int_def Let_def split: list.splits if_splits option.splits prod.splits)

lemma split_on_nonempty: "split_on sep s \<noteq> []"
  by (induction s) (auto split: list.splits)

lemma digit_not_special:
  "is_digit c \<Longrightarrow> \<not> is_space c \<and> c \<noteq> 95 \<and> c \<noteq> 43 \<and> c \<noteq> 45 \<and> c < 128"
  by (auto simp: is_digit_def is_space_def)

lemma to_ascii_digits: "\<forall>c \<in> set t. is_digit c \<Longrightarrow> to_ascii U t = t"
  using digit_not_special by (auto simp: to_ascii_def)

lemma scan_digits_all_digits:
  "\<forall>c \<in> set t. is_digit c \<Longrightarrow> t \<noteq> [] \<Longrightarrow>
   scan_digits t acc n prev = Some (foldl (\<lambda>v c. 10 * v + digit_value c) acc t, n + length t)"
proof (induction t arbitrary: acc n prev)
  case Nil
  then show ?case by simp
next
  case (Cons c cs)
  then have c: "is_digit c" "c \<noteq> 95" using digit_not_special [of c] by simp_all
  show ?case
  proof (cases "cs = []")
    case True
    with c show ?thesis by simp
  next
    case False
    with Cons.prems have "\<forall>c \<in> set cs. is_digit c" by simp
    from Cons.IH [OF this False] c show ?thesis by simp
  qed
qed

lemma dropWhile_none: "\<forall>c \<in> set t. \<not> P c \<Longrightarrow> dropWhile P t = t"
  by (cases t) simp_all

lemma strip_no_space: "\<forall>c \<in> set t. \<not> is_space c \<Longrightarrow> strip t = t"
  by (simp add: strip_def dropWhile_none)

text \<open>What \<open>int\<close> makes of a non-empty string of ASCII digits.\<close>

lemma python_int_digit_string:
  assumes "t \<noteq> []" "\<forall>c \<in> set t. is_digit c"
  shows "python_int U t =
    (if 640 < length t \<and> 0 < max_str_digits U \<and> max_str_digits U < length t
     then Inl ValueError else Inr (foldl (\<lambda>v c. 10 * v + digit_value c) 0 t))"
proof -
  have "\<forall>c \<in> set t. \<not> is_space c" using assms(2) digit_not_special by blast
  then have s: "strip t = t" by (rule strip_no_space)
  have a: "to_ascii U t = t" using assms(2) by (rule to_ascii_digits)
  from assms(1) obtain c r where t: "t = c # r" by (cases t) auto
  with assms(2) have "is_digit c" by simp
  then have c: "c \<noteq> 43" "c \<noteq> 45" using digit_not_special [of c] by simp_all
  have s': "strip (to_ascii U (c # r)) = c # r" using s a by (simp only: t)
  have "scan_digits t 0 0 None = Some (foldl (\<lambda>v c. 10 * v + digit_value c) 0 t, 0 + length t)"
    using assms(1,2) by (intro scan_digits_all_digits)
  then have sc: "scan_digits (c # r) 0 0 None
      = Some (foldl (\<lambda>v c. 10 * v + digit_value c) 0 (c # r), length (c # r))"
    by (simp only: t add_0)
  have "python_int U (c # r) =
    (if 640 < length (c # r) \<and> 0 < max_str_digits U \<and> max_str_digits U < length (c # r)
     then Inl ValueError else Inr (foldl (\<lambda>v c. 10 * v + digit_value c) 0 (c # r)))"
    using c by (simp only: python_int_def Let_def s' list.case if_False prod.case sc option.case) simp
  then show ?thesis by (simp only: t)
qed

lemma scan_digits_bad_char:
  "c \<in> set s \<Longrightarrow> \<not> is_digit c \<Longrightarrow> c \<noteq> 95 \<Longrightarrow> scan_digits s acc n prev = None"
  by (induction s arbitrary: acc n prev) auto

lemma dropWhile_keeps: "c \<in> set t \<Longrightarrow> \<not> P c \<Longrightarrow> c \<in> set (dropWhile P t)"
  by (induction t) auto

lemma strip_keeps: "c \<in> set t \<Longrightarrow> \<not> is_space c \<Longrightarrow> c \<in> set (strip t)"
  by (simp add: strip_def dropWhile_keeps)

text \<open>The second step refuses a text that holds a character of no use in a literal.\<close>

lemma ascii_bad_char:
  assumes "c \<in> set (to_ascii U t)" "\<not> is_digit c" "\<not> is_space c"
    and "c \<noteq> 43" "c \<noteq> 45" "c \<noteq> 95"
  shows "python_int U t = Inl ValueError"
proof -
  have m: "c \<in> set (strip (to_ascii U t))" using assms(1,3) by (rule strip_keeps)
  have bad: "scan_digits b 0 0 None = None" if "c \<in> set b" for b
    using that assms(2,6) by (rule scan_digits_bad_char)
  show ?thesis
  proof (cases "strip (to_ascii U t)")
    case Nil
    with m show ?thesis by simp
  next
    case (Cons x r)
    show ?thesis
    proof (cases "x = 43 \<or> x = 45")
      case True
      with m Cons assms(4,5) have "c \<in> set r" by auto
      from bad [OF this] True show ?thesis by (auto simp: python_int_def Cons)
    next
      case False
      from bad [OF m] False show ?thesis by (simp add: python_int_def Cons)
    qed
  qed
qed

text \<open>The first step keeps such a character or ends in a question mark.\<close>

lemma transform_bad_char:
  assumes "c \<in> set t" "\<not> is_digit c" "\<not> is_space c" "c \<noteq> 43" "c \<noteq> 45" "c \<noteq> 95"
    and "127 \<le> c \<longrightarrow> \<not> unicode_isspace U c \<and> unicode_todecimal U c = None"
  shows "\<exists>c' \<in> set (transform U t).
    \<not> is_digit c' \<and> \<not> is_space c' \<and> c' \<noteq> 43 \<and> c' \<noteq> 45 \<and> c' \<noteq> 95"
  using assms(1)
proof (induction t)
  case Nil
  then show ?case by simp
next
  case (Cons h t)
  have q: "\<not> is_digit 63 \<and> \<not> is_space 63" by (simp add: is_digit_def is_space_def)
  show ?case
  proof (cases "h = c")
    case True
    show ?thesis
    proof (cases "c < 127")
      case True
      with \<open>h = c\<close> assms(2-6) show ?thesis by auto
    next
      case False
      with assms(7) have "\<not> unicode_isspace U c" "unicode_todecimal U c = None" by simp_all
      with False \<open>h = c\<close> q show ?thesis by simp
    qed
  next
    case False
    with Cons.prems have "c \<in> set t" by simp
    from Cons.IH [OF this] obtain c' where c': "c' \<in> set (transform U t)"
      "\<not> is_digit c' \<and> \<not> is_space c' \<and> c' \<noteq> 43 \<and> c' \<noteq> 45 \<and> c' \<noteq> 95" by blast
    show ?thesis
    proof (cases "h < 127 \<or> unicode_isspace U h \<or> unicode_todecimal U h \<noteq> None")
      case True
      with c' show ?thesis by (auto split: option.splits)
    next
      case False
      with q show ?thesis by simp
    qed
  qed
qed

lemma python_int_bad_char:
  assumes "c \<in> set t" "\<not> is_digit c" "\<not> is_space c" "c \<noteq> 43" "c \<noteq> 45" "c \<noteq> 95"
    and "127 \<le> c \<longrightarrow> \<not> unicode_isspace U c \<and> unicode_todecimal U c = None"
  shows "python_int U t = Inl ValueError"
proof (cases "\<forall>c \<in> set t. c < 128")
  case True
  then have "to_ascii U t = t" by (simp add: to_ascii_def)
  with assms(1) have "c \<in> set (to_ascii U t)" by simp
  then show ?thesis using assms(2-6) by (rule ascii_bad_char)
next
  case False
  then have "to_ascii U t = transform U t" unfolding to_ascii_def by (simp only: if_False)
  with transform_bad_char [OF assms] obtain c' where "c' \<in> set (to_ascii U t)"
    "\<not> is_digit c'" "\<not> is_space c'" "c' \<noteq> 43" "c' \<noteq> 45" "c' \<noteq> 95" by auto
  then show ?thesis by (rule ascii_bad_char)
qed


lemma single_entry_accepted: "chars a = [49] \<Longrightarrow> get_chars U a = Inr [1]"
proof -
  assume c: "chars a = [49]"
  have "python_int U [49] = Inr 1"
    using python_int_digit_string [of "[49]" U] by (simp add: is_digit_def digit_value_def)
  then show ?thesis by (simp add: get_chars_def c)
qed

subsection \<open>Cells of the grid\<close>

lemma cell_histogram_total:
  "sum_list (cell_histogram a newim (y, x)) = nat (char_height a) * nat (char_width a)"
  by (simp add: cell_histogram_def Let_def histogram_total crop_pixels)

lemma cell_histogram_length: "length (cell_histogram a newim yx) = 256"
  by (cases yx) (simp add: cell_histogram_def Let_def histogram_length)

lemma cells_grid:
  assumes "yx \<in> set (cells a)"
  shows "0 < width a \<and> 0 < height a"
  using assms by (auto simp: cells_def)

lemma reducer_no_zero_division:
  assumes "2 \<le> length hist" "0 < sum_list hist"
  shows "rank_histogram_to_col_and_char hist pal cs \<noteq> Inl ZeroDivisionError"
proof -
  have w: "0 < fst (ranking hist ! 0)" using assms(2) by (rule ranking_winner_pos)
  have "rank_histogram_to_col_and_char hist pal cs =
      (case py_index cs (winner_char_index
              (fl (of_nat (fst (ranking hist ! 0))
                   / (of_nat (fst (ranking hist ! 0)) + of_nat (fst (ranking hist ! 1))))) cs) of
         Inl e \<Rightarrow> Inl e
       | Inr char \<Rightarrow> Inr (char, int (snd (ranking hist ! 0)) mod 16
                         + int (snd (ranking hist ! 1)) mod 16 * 16))"
    by (simp only: reducer_unfold [OF assms(1)] winner_ratio_value [OF w] sum.case)
  then show ?thesis by (auto simp: py_index_def split: sum.splits if_splits)
qed

lemma mad_science_resize_error:
  "image_resize P im (width a * char_width a, height a * char_height a) = Inl e
   \<Longrightarrow> mad_science P a im pil_pal mzx_pal mzx_chars = Inl e"
  by (simp add: mad_science_def)

lemma main_resize_refused:
  assumes "\<forall>im. \<exists>e. image_resize P im (width a * char_width a, height a * char_height a) = Inl e"
  shows "\<exists>e. main P U a w = (Inl e, w)"
proof -
  have m: "\<exists>e. mad_science P a im pil_pal mzx_pal mzx_chars = Inl e" for im pil_pal mzx_pal mzx_chars
  proof -
    from assms obtain e
      where "image_resize P im (width a * char_width a, height a * char_height a) = Inl e"
      by blast
    then have "mad_science P a im pil_pal mzx_pal mzx_chars = Inl e"
      by (rule mad_science_resize_error)
    then show ?thesis by blast
  qed
  show ?thesis
  proof (cases "get_palette a w")
    case (Inl e)
    then show ?thesis by (simp add: main_def)
  next
    case pal: (Inr mzx_pal)
    show ?thesis
    proof (cases "get_chars U a")
      case (Inl e)
      with pal show ?thesis by (simp add: main_def)
    next
      case cs: (Inr mzx_chars)
      show ?thesis
      proof (cases "files w (input_arg a)")
        case None
        with pal cs show ?thesis by (simp add: main_def)
      next
        case content: (Some content)
        show ?thesis
        proof (cases "image_open P content")
          case (Inl e)
          with pal cs content show ?thesis by (simp add: main_def)
        next
          case (Inr im)
          from m [of im "make_8bit_palette mzx_pal" mzx_pal mzx_chars] obtain e
            where "mad_science P a im (make_8bit_palette mzx_pal) mzx_pal mzx_chars = Inl e"
            by blast
          with pal cs content Inr show ?thesis by (simp add: main_def)
        qed
      qed
    qed
  qed
qed

section \<open>The claims\<close>

text \<open>
  Claim C8. Palette expansion sends every channel value \<open>v\<close> of the flattened palette to
  \<open>v * 4 + v div 16\<close>; a value in \<open>[0, 63]\<close> lands in \<open>[0, 255]\<close>, and 63 lands on 255
  exactly.
\<close>

theorem make_8bit_palette_expand:
  "length (make_8bit_palette pal) = length (concat pal)
   \<and> (\<forall>i < length (concat pal).
        make_8bit_palette pal ! i = (concat pal ! i) * 4 + (concat pal ! i) div 16
        \<and> (0 \<le> concat pal ! i \<and> concat pal ! i \<le> 63
            \<longrightarrow> 0 \<le> make_8bit_palette pal ! i \<and> make_8bit_palette pal ! i \<le> 255)
        \<and> (concat pal ! i = 63 \<longrightarrow> make_8bit_palette pal ! i = 255))"
  by (auto simp: make_8bit_palette_def)

theorem make_8bit_palette_expand_witness:
  "(1::nat) < length (concat [[0, 21, 63 :: int]])
   \<and> 0 \<le> concat [[0, 21, 63 :: int]] ! 1 \<and> concat [[0, 21, 63 :: int]] ! 1 \<le> 63
   \<and> make_8bit_palette [[0, 21, 63]] ! 1 = 85
   \<and> 0 \<le> make_8bit_palette [[0, 21, 63]] ! 1 \<and> make_8bit_palette [[0, 21, 63]] ! 1 \<le> 255
   \<and> concat [[0, 21, 63 :: int]] ! 2 = 63
   \<and> make_8bit_palette [[0, 21, 63]] ! 2 = 255"
proof -
  have h1: "(1::nat) < length (concat [[0, 21, 63 :: int]])" by simp
  have h2: "(2::nat) < length (concat [[0, 21, 63 :: int]])" by simp
  have v1: "0 \<le> concat [[0, 21, 63 :: int]] ! 1 \<and> concat [[0, 21, 63 :: int]] ! 1 \<le> 63" by simp
  have v2: "concat [[0, 21, 63 :: int]] ! 2 = 63" by simp
  note t1 = make_8bit_palette_expand [of "[[0, 21, 63]]", THEN conjunct2, rule_format, OF h1]
  note t2 = make_8bit_palette_expand [of "[[0, 21, 63]]", THEN conjunct2, rule_format, OF h2]
  from t1 have a: "make_8bit_palette [[0, 21, 63]] ! 1 = 85" by simp
  from t1 v1 have b: "0 \<le> make_8bit_palette [[0, 21, 63]] ! 1 \<and> make_8bit_palette [[0, 21, 63]] ! 1 \<le> 255"
    by blast
  from t2 v2 have c: "make_8bit_palette [[0, 21, 63]] ! 2 = 255" by blast
  from h1 v1 a b v2 c show ?thesis by blast
qed

text \<open>
  Claim C4. The reducer ranks every bin, by count in descending order and, among equal
  counts, by ascending bin index. Hence the winner is the lowest bin holding the top
  count and the runner-up is the lowest bin holding the top count of the remaining bins;
  the colour byte is fixed by these two bins.
\<close>

theorem ranking_tie_break:
  assumes "2 \<le> length hist"
  shows "length (ranking hist) = length hist
    \<and> set (ranking hist) = set (zip hist [0..<length hist])
    \<and> sorted_wrt (\<lambda>a b. fst b < fst a \<or> (fst b = fst a \<and> snd a < snd b)) (ranking hist)
    \<and> (let winner = ranking hist ! 0; second = ranking hist ! 1 in
          snd winner < length hist \<and> fst winner = hist ! snd winner
        \<and> (\<forall>j < length hist.
              hist ! j \<le> fst winner \<and> (hist ! j = fst winner \<longrightarrow> snd winner \<le> j))
        \<and> snd second < length hist \<and> fst second = hist ! snd second
        \<and> snd second \<noteq> snd winner
        \<and> (\<forall>j < length hist. j \<noteq> snd winner \<longrightarrow>
              hist ! j \<le> fst second \<and> (hist ! j = fst second \<longrightarrow> snd second \<le> j))
        \<and> (\<forall>g c. rank_histogram_to_col_and_char hist mzx_pal mzx_chars = Inr (g, c) \<longrightarrow>
              c = int (snd winner) mod 16 + int (snd second) mod 16 * 16))"
proof -
  have l0: "0 < length hist" and l1: "1 < length hist" using assms by auto
  have "set (ranking hist) = set (zip hist [0..<length hist])"
    by (simp add: ranking_def sorted_reverse_def)
  moreover have "\<forall>g c. rank_histogram_to_col_and_char hist mzx_pal mzx_chars = Inr (g, c) \<longrightarrow>
      c = int (snd (ranking hist ! 0)) mod 16 + int (snd (ranking hist ! 1)) mod 16 * 16"
    by (auto simp only: reducer_unfold [OF assms] split: sum.splits)
  ultimately show ?thesis
    unfolding Let_def
    using ranking_length [of hist] ranking_sorted [of hist]
      ranking_nth [OF l0] ranking_nth [OF l1]
      ranking_winner [OF l0] ranking_second [OF l1] ranking_first_two [OF l1]
    by blast
qed

theorem ranking_tie_break_witness:
  "2 \<le> length [3, 5, 5, 0, 5 :: nat]
   \<and> ranking [3, 5, 5, 0, 5] = [(5, 1), (5, 2), (5, 4), (3, 0), (0, 3)]
   \<and> snd (ranking [3, 5, 5, 0, 5] ! 0) < snd (ranking [3, 5, 5, 0, 5] ! 1)
   \<and> rank_histogram_to_col_and_char [3, 5, 5, 0, 5] [] [176, 177, 178, 219] = Inr (178, 33)"
proof -
  have h: "2 \<le> length [3, 5, 5, 0, 5 :: nat]" by simp
  have r: "ranking [3, 5, 5, 0, 5] = [(5, 1), (5, 2), (5, 4), (3, 0), (0, 3)]" by code_simp
  have e: "rank_histogram_to_col_and_char [3, 5, 5, 0, 5] [] [176, 177, 178, 219] = Inr (178, 33)"
    by code_simp
  from ranking_tie_break [OF h, of "[]" "[176, 177, 178, 219]"]
  have "sorted_wrt (\<lambda>a b. fst b < fst a \<or> (fst b = fst a \<and> snd a < snd b)) (ranking [3, 5, 5, 0, 5])"
    by blast
  then have "snd (ranking [3, 5, 5, 0, 5] ! 0) < snd (ranking [3, 5, 5, 0, 5] ! 1)"
    by (simp add: r)
  with h r e show ?thesis by simp
qed

text \<open>
  Claim C5. For a histogram with positive total count and a gradient of at least two
  glyphs, the ratio of the winner's count to the sum of the two leading counts lies in
  \<open>(0, 1]\<close>, the glyph index computed from it lies in the index range of the gradient, so
  that clamping it into that range changes nothing, and the glyph at that index is the
  one returned: the lookup never leaves the gradient. (A list of more than \<open>2\<^sup>5\<^sup>3\<close>
  entries cannot be held in memory; up to that length \<open>len(mzx_chars) - 1\<close> is a float.)
\<close>

theorem glyph_index_in_range:
  assumes "2 \<le> length hist" "0 < sum_list hist"
    and "2 \<le> length mzx_chars" "length mzx_chars \<le> 2 ^ 53"
  shows "\<exists>ratio. winner_ratio (ranking hist ! 0) (ranking hist ! 1) = Inr ratio
    \<and> 0 < ratio \<and> ratio \<le> 1
    \<and> (let idx = winner_char_index ratio mzx_chars in
          0 \<le> idx \<and> idx < int (length mzx_chars)
        \<and> max 0 (min (int (length mzx_chars) - 1) idx) = idx
        \<and> py_index mzx_chars idx = Inr (mzx_chars ! nat idx)
        \<and> rank_histogram_to_col_and_char hist mzx_pal mzx_chars =
            Inr (mzx_chars ! nat idx,
                 int (snd (ranking hist ! 0)) mod 16 + int (snd (ranking hist ! 1)) mod 16 * 16))"
proof -
  have "1 \<le> length mzx_chars" using assms(3) by simp
  from reducer_positive [OF assms(1,2) this assms(4), of mzx_pal]
  obtain ratio where r: "winner_ratio (ranking hist ! 0) (ranking hist ! 1) = Inr ratio"
    "1 / 2 \<le> ratio" "ratio \<le> 1"
    "0 \<le> winner_char_index ratio mzx_chars"
    "winner_char_index ratio mzx_chars < int (length mzx_chars)"
    "rank_histogram_to_col_and_char hist mzx_pal mzx_chars =
        Inr (mzx_chars ! nat (winner_char_index ratio mzx_chars),
             int (snd (ranking hist ! 0)) mod 16 + int (snd (ranking hist ! 1)) mod 16 * 16)"
    by blast
  have "0 < ratio" using r(2) by simp
  moreover have "py_index mzx_chars (winner_char_index ratio mzx_chars)
      = Inr (mzx_chars ! nat (winner_char_index ratio mzx_chars))"
    using r(4,5) by (simp add: py_index_def)
  moreover have "max 0 (min (int (length mzx_chars) - 1) (winner_char_index ratio mzx_chars))
      = winner_char_index ratio mzx_chars"
    using r(4,5) by simp
  ultimately show ?thesis using r unfolding Let_def by blast
qed

theorem glyph_index_in_range_witness:
  "2 \<le> length [3, 5, 5, 0, 5 :: nat] \<and> 0 < sum_list [3, 5, 5, 0, 5 :: nat]
   \<and> 2 \<le> length [176, 177, 178, 219 :: int] \<and> length [176, 177, 178, 219 :: int] \<le> 2 ^ 53
   \<and> (\<exists>ratio. winner_ratio (ranking [3, 5, 5, 0, 5] ! 0) (ranking [3, 5, 5, 0, 5] ! 1) = Inr ratio
        \<and> 0 < ratio \<and> ratio \<le> 1
        \<and> winner_char_index ratio [176, 177, 178, 219] < 4)
   \<and> rank_histogram_to_col_and_char [3, 5, 5, 0, 5] [] [176, 177, 178, 219] = Inr (178, 33)"
proof -
  have h1: "2 \<le> length [3, 5, 5, 0, 5 :: nat]" by simp
  have h2: "0 < sum_list [3, 5, 5, 0, 5 :: nat]" by simp
  have h3: "2 \<le> length [176, 177, 178, 219 :: int]" by simp
  have h4: "length [176, 177, 178, 219 :: int] \<le> 2 ^ 53" by simp
  have e: "rank_histogram_to_col_and_char [3, 5, 5, 0, 5] [] [176, 177, 178, 219] = Inr (178, 33)"
    by code_simp
  from glyph_index_in_range [OF h1 h2 h3 h4, of "[]"]
  have "\<exists>ratio. winner_ratio (ranking [3, 5, 5, 0, 5] ! 0) (ranking [3, 5, 5, 0, 5] ! 1) = Inr ratio
        \<and> 0 < ratio \<and> ratio \<le> 1
        \<and> winner_char_index ratio [176, 177, 178, 219] < 4"
    unfolding Let_def by auto
  with h1 h2 h3 h4 e show ?thesis by blast
qed

text \<open>
  Claim C6. When all counts of the histogram sit in one bin, the ratio is exactly 1 and
  the reducer returns the last glyph of the gradient (for a gradient of at least two
  glyphs; the winner is that bin).
\<close>

theorem single_bin_last_glyph:
  assumes "2 \<le> length hist" "i < length hist" "0 < hist ! i"
    and "\<forall>j < length hist. j \<noteq> i \<longrightarrow> hist ! j = 0"
    and "2 \<le> length mzx_chars" "length mzx_chars \<le> 2 ^ 53"
  shows "winner_ratio (ranking hist ! 0) (ranking hist ! 1) = Inr 1
    \<and> snd (ranking hist ! 0) = i
    \<and> winner_char_index 1 mzx_chars = int (length mzx_chars) - 1
    \<and> rank_histogram_to_col_and_char hist mzx_pal mzx_chars =
        Inr (last mzx_chars, int i mod 16 + int (snd (ranking hist ! 1)) mod 16 * 16)"
proof -
  let ?w = "ranking hist ! 0" and ?s = "ranking hist ! 1"
  have l0: "0 < length hist" and l1: "1 < length hist" using assms(1) by auto
  have wi: "snd ?w = i"
  proof (rule ccontr)
    assume ne: "snd ?w \<noteq> i"
    from ranking_nth [OF l0] have "snd ?w < length hist" "fst ?w = hist ! snd ?w" by simp_all
    with assms(4) ne have "fst ?w = 0" by simp
    moreover from ranking_winner [OF l0 assms(2)] have "hist ! i \<le> fst ?w" by simp
    ultimately show False using assms(3) by simp
  qed
  have w: "fst ?w = hist ! i" using ranking_nth [OF l0] wi by simp
  have "snd ?s \<noteq> i" using ranking_first_two [OF l1] wi by simp
  moreover from ranking_nth [OF l1] have "snd ?s < length hist" "fst ?s = hist ! snd ?s"
    by simp_all
  ultimately have s: "fst ?s = 0" using assms(4) by simp
  have wpos: "0 < fst ?w" using w assms(3) by simp
  have "of_nat (fst ?w) / (of_nat (fst ?w) + of_nat (fst ?s)) = (1::rat)"
    using wpos by (simp add: s [unfolded One_nat_def])
  with winner_ratio_value [OF wpos, of ?s] have r: "winner_ratio ?w ?s = Inr 1"
    by (simp only: fl_one)
  define m where "m = int (length mzx_chars) - 1"
  have "int (length mzx_chars) \<le> int (2 ^ 53)" using assms(6) by (simp only: of_nat_le_iff)
  then have m: "0 \<le> m" "m \<le> 2 ^ 53" using assms(5) by (auto simp: m_def)
  have flm: "fl (of_int m) = of_int m" using m by (rule fl_of_int)
  have "winner_char_index 1 mzx_chars = round_half_even (fl (1 * fl (of_int m)))"
    by (simp only: winner_char_index_def py_round_def float_mul_int_def m_def)
  also have "\<dots> = m" by (simp add: flm round_half_even_of_int)
  finally have idx: "winner_char_index 1 mzx_chars = int (length mzx_chars) - 1"
    by (simp only: m_def)
  have ne: "mzx_chars \<noteq> []" using assms(5) by auto
  have "nat (int (length mzx_chars) - 1) = length mzx_chars - 1" by arith
  then have "py_index mzx_chars (int (length mzx_chars) - 1) = Inr (last mzx_chars)"
    using ne by (simp add: py_index_def last_conv_nth)
  then have px: "py_index mzx_chars (winner_char_index 1 mzx_chars) = Inr (last mzx_chars)"
    by (simp only: idx)
  have "rank_histogram_to_col_and_char hist mzx_pal mzx_chars =
        Inr (last mzx_chars, int (snd ?w) mod 16 + int (snd ?s) mod 16 * 16)"
    by (simp only: reducer_unfold [OF assms(1)] r px sum.case)
  with r wi idx show ?thesis by simp
qed

theorem single_bin_last_glyph_witness:
  "2 \<le> length [0, 7, 0 :: nat] \<and> (1::nat) < length [0, 7, 0 :: nat] \<and> 0 < [0, 7, 0 :: nat] ! 1
   \<and> 2 \<le> length [176, 177, 178, 219 :: int] \<and> length [176, 177, 178, 219 :: int] \<le> 2 ^ 53
   \<and> winner_ratio (ranking [0, 7, 0] ! 0) (ranking [0, 7, 0] ! 1) = Inr 1
   \<and> rank_histogram_to_col_and_char [0, 7, 0] [] [176, 177, 178, 219] = Inr (219, 1)"
proof -
  have h1: "2 \<le> length [0, 7, 0 :: nat]" by simp
  have h2: "(1::nat) < length [0, 7, 0 :: nat]" by simp
  have h3: "0 < [0, 7, 0 :: nat] ! 1" by simp
  have h4: "\<forall>j < length [0, 7, 0 :: nat]. j \<noteq> 1 \<longrightarrow> [0, 7, 0 :: nat] ! j = 0"
    by (auto simp: nth_Cons split: nat.splits)
  have h5: "2 \<le> length [176, 177, 178, 219 :: int]" by simp
  have h6: "length [176, 177, 178, 219 :: int] \<le> 2 ^ 53" by simp
  have s: "snd (ranking [0, 7, 0] ! 1) = 0" by code_simp
  from single_bin_last_glyph [OF h1 h2 h3 h4 h5 h6, of "[]"]
  have "winner_ratio (ranking [0, 7, 0] ! 0) (ranking [0, 7, 0] ! 1) = Inr 1"
    and "rank_histogram_to_col_and_char [0, 7, 0] [] [176, 177, 178, 219] = Inr (219, 1)"
    by (simp_all add: s [unfolded One_nat_def])
  with h1 h2 h3 h5 h6 show ?thesis by blast
qed

text \<open>
  Claim C10. For a histogram with positive total count the winner's count is at least the
  runner-up's, so the ratio lies in \<open>[1/2, 1]\<close>; the glyph index is then at least
  \<^verbatim>\<open>round((len(gradient) - 1) / 2)\<close>, and with the default gradient
  \<^verbatim>\<open>176,177,178,219\<close> the reducer returns glyph 178 or glyph 219, never 176 or 177.
\<close>

theorem ratio_at_least_half:
  assumes "2 \<le> length hist" "0 < sum_list hist"
  shows "fst (ranking hist ! 1) \<le> fst (ranking hist ! 0)
    \<and> (\<exists>ratio. winner_ratio (ranking hist ! 0) (ranking hist ! 1) = Inr ratio
          \<and> 1 / 2 \<le> ratio \<and> ratio \<le> 1
          \<and> (\<forall>cs. 1 \<le> length cs \<and> length cs \<le> 2 ^ 53 \<longrightarrow>
                py_round (fl (of_int (int (length cs) - 1) / 2)) \<le> winner_char_index ratio cs))
    \<and> (\<exists>g c. rank_histogram_to_col_and_char hist mzx_pal [176, 177, 178, 219] = Inr (g, c)
          \<and> (g = 178 \<or> g = 219))"
proof -
  let ?w = "ranking hist ! 0" and ?s = "ranking hist ! 1"
  define ratio where "ratio = fl (of_nat (fst ?w) / (of_nat (fst ?w) + of_nat (fst ?s)))"
  have w: "0 < fst ?w" using assms(2) by (rule ranking_winner_pos)
  have s: "fst ?s \<le> fst ?w" using ranking_first_two [of hist] assms(1) by simp
  have r: "winner_ratio ?w ?s = Inr ratio"
    using winner_ratio_value [OF w] by (simp add: ratio_def)
  have rb: "1 / 2 \<le> ratio" "ratio \<le> 1"
    using winner_ratio_bounds [OF w s] by (simp_all add: ratio_def)
  have gen: "py_round (fl (of_int (int (length cs) - 1) / 2)) \<le> winner_char_index ratio cs"
    if "1 \<le> length cs \<and> length cs \<le> 2 ^ 53" for cs :: "int list"
  proof -
    have "int (length cs) \<le> int (2 ^ 53)" using that by (simp only: of_nat_le_iff)
    then have m: "0 \<le> int (length cs) - 1" "int (length cs) - 1 \<le> 2 ^ 53" using that by auto
    have "fl (of_int (int (length cs) - 1) / 2) = of_int (int (length cs) - 1) / 2"
      using m by (rule fl_half_int)
    with winner_char_index_bounds [OF rb, of cs] that show ?thesis
      by (simp only: py_round_def)
  qed
  define idx where "idx = winner_char_index ratio [176, 177, 178, 219]"
  have "round_half_even (of_int (int (length [176, 177, 178, 219 :: int]) - 1) / 2) = 2"
    by code_simp
  with winner_char_index_bounds [OF rb, of "[176, 177, 178, 219]"]
  have ib: "2 \<le> idx" "idx \<le> 3" by (simp_all add: idx_def)
  then have "idx = 2 \<or> idx = 3" by auto
  then have px: "py_index [176, 177, 178, 219 :: int] idx = Inr 178
      \<or> py_index [176, 177, 178, 219 :: int] idx = Inr 219"
    by (auto simp: py_index_def)
  have "rank_histogram_to_col_and_char hist mzx_pal [176, 177, 178, 219] =
      (case py_index [176, 177, 178, 219] idx of
         Inl e \<Rightarrow> Inl e
       | Inr char \<Rightarrow> Inr (char, int (snd ?w) mod 16 + int (snd ?s) mod 16 * 16))"
    by (simp only: reducer_unfold [OF assms(1)] r sum.case idx_def)
  with px have "\<exists>g c. rank_histogram_to_col_and_char hist mzx_pal [176, 177, 178, 219] = Inr (g, c)
          \<and> (g = 178 \<or> g = 219)"
    by auto
  with s r rb gen show ?thesis by blast
qed

theorem ratio_at_least_half_witness:
  "2 \<le> length [3, 5, 5, 0, 5 :: nat] \<and> 0 < sum_list [3, 5, 5, 0, 5 :: nat]
   \<and> fst (ranking [3, 5, 5, 0, 5] ! 1) \<le> fst (ranking [3, 5, 5, 0, 5] ! 0)
   \<and> (\<exists>g c. rank_histogram_to_col_and_char [3, 5, 5, 0, 5] [] [176, 177, 178, 219] = Inr (g, c)
          \<and> (g = 178 \<or> g = 219))"
proof -
  have h1: "2 \<le> length [3, 5, 5, 0, 5 :: nat]" by simp
  have h2: "0 < sum_list [3, 5, 5, 0, 5 :: nat]" by simp
  from ratio_at_least_half [OF h1 h2, of "[]"] h1 h2 show ?thesis by blast
qed

text \<open>
  Claim C9. The table built from a 16 colour palette holds 256 colours (768 channel
  values), and its colour \<open>i\<close> is its colour \<open>i mod 16\<close>, which is colour \<open>i mod 16\<close> of the
  expanded palette.
\<close>

theorem diffusion_table_repeats:
  assumes "length pal = 16" "\<forall>c \<in> set pal. length c = 3"
  shows "length (diffusion_table (make_8bit_palette pal)) = 3 * 256
    \<and> (\<forall>i < 256.
          palette_entry (diffusion_table (make_8bit_palette pal)) i
            = palette_entry (diffusion_table (make_8bit_palette pal)) (i mod 16)
        \<and> palette_entry (diffusion_table (make_8bit_palette pal)) i
            = palette_entry (make_8bit_palette pal) (i mod 16))"
proof -
  define p where "p = make_8bit_palette pal"
  have lp: "length p = 48"
    using length_concat_triples [OF assms(2)] assms(1) by (simp add: p_def make_8bit_palette_def)
  have len: "length (diffusion_table p) = 3 * 256"
    by (simp add: diffusion_table_def length_concat_replicate lp)
  have nth: "diffusion_table p ! k = p ! (k mod 48)" if "k < 768" for k
    using concat_replicate_nth [of k 16 p] that by (simp add: diffusion_table_def lp)
  have entry: "palette_entry (diffusion_table p) i = palette_entry p (i mod 16)" if "i < 256" for i
  proof -
    define q r where "q = i div 16" and "r = i mod 16"
    have i: "i = 16 * q + r" and r: "r < 16" by (simp_all add: q_def r_def)
    have split: "(3 * i + c) mod 48 = 3 * r + c" if "c < 3" for c
    proof -
      have "3 * i + c = 48 * q + (3 * r + c)" by (simp add: i)
      moreover have "(48 * q + (3 * r + c)) mod 48 = (3 * r + c) mod 48"
        by (rule mod_mult_self4)
      moreover have "3 * r + c < 48" using r that by simp
      ultimately show ?thesis by (simp only: mod_less)
    qed
    have "3 * i < 768" "3 * i + 1 < 768" "3 * i + 2 < 768" using that by simp_all
    moreover have "(3 * i) mod 48 = 3 * (i mod 16)" using split [of 0] by (simp add: r_def)
    moreover have "(3 * i + 1) mod 48 = 3 * (i mod 16) + 1" using split [of 1] by (simp add: r_def)
    moreover have "(3 * i + 2) mod 48 = 3 * (i mod 16) + 2" using split [of 2] by (simp add: r_def)
    ultimately show ?thesis by (simp add: palette_entry_def nth)
  qed
  have "palette_entry (diffusion_table p) i = palette_entry (diffusion_table p) (i mod 16)"
    if "i < 256" for i
  proof -
    have "i mod 16 < 256" by (rule less_trans [of _ 16]) simp_all
    from entry [OF this] entry [OF that] show ?thesis by simp
  qed
  with len entry show ?thesis unfolding p_def by blast
qed

theorem diffusion_table_repeats_witness:
  "length DEFAULT_PALETTE = 16
   \<and> length (diffusion_table (make_8bit_palette DEFAULT_PALETTE)) = 768
   \<and> palette_entry (diffusion_table (make_8bit_palette DEFAULT_PALETTE)) 17
       = palette_entry (diffusion_table (make_8bit_palette DEFAULT_PALETTE)) 1
   \<and> palette_entry (make_8bit_palette DEFAULT_PALETTE) 1 = (0, 0, 170)"
proof -
  have h1: "length DEFAULT_PALETTE = 16" by (simp add: DEFAULT_PALETTE_def)
  have h2: "\<forall>c \<in> set DEFAULT_PALETTE. length c = 3" by (simp add: DEFAULT_PALETTE_def)
  have e: "palette_entry (make_8bit_palette DEFAULT_PALETTE) 1 = (0, 0, 170)" by code_simp
  have m: "(17::nat) mod 16 = 1" by simp
  have lt: "(17::nat) < 256" by simp
  note t = diffusion_table_repeats [OF h1 h2]
  from t have a: "length (diffusion_table (make_8bit_palette DEFAULT_PALETTE)) = 3 * 256"
    by (rule conjunct1)
  from t [THEN conjunct2, rule_format, OF lt]
  have "palette_entry (diffusion_table (make_8bit_palette DEFAULT_PALETTE)) 17
       = palette_entry (diffusion_table (make_8bit_palette DEFAULT_PALETTE)) (17 mod 16)"
    by (rule conjunct1)
  then have b: "palette_entry (diffusion_table (make_8bit_palette DEFAULT_PALETTE)) 17
       = palette_entry (diffusion_table (make_8bit_palette DEFAULT_PALETTE)) 1"
    by (simp only: m)
  from a have "length (diffusion_table (make_8bit_palette DEFAULT_PALETTE)) = 768" by simp
  with h1 e b show ?thesis by blast
qed

text \<open>
  Claim C3. With a palette file given, the loader takes the first 48 bytes and groups them
  into 16 consecutive RGB triples. A file of fewer than 48 bytes makes it fail (the
  exception raised is \<^verbatim>\<open>IndexError\<close>), and the program then ends with that error and
  the file system as it was: no output file is written.
\<close>

theorem get_palette_file:
  assumes "palette a = Some path" "files w path = Some content"
  shows "(length content < 48 \<longrightarrow>
            get_palette a w = Inl IndexError \<and> main P U a w = (Inl IndexError, w))
    \<and> (48 \<le> length content \<longrightarrow>
            get_palette a w =
              Inr (map (\<lambda>i. [uint (content ! (3 * i)), uint (content ! (3 * i + 1)),
                              uint (content ! (3 * i + 2))]) [0..<16]))"
proof (intro conjI impI)
  assume short: "length content < 48"
  then have "length (take 48 content) < 0 + 3 * 16" by simp
  from palette_loop_short [OF _ this, of "[]"]
  show g: "get_palette a w = Inl IndexError"
    using assms by (simp add: get_palette_def)
  then show "main P U a w = (Inl IndexError, w)" by (rule main_palette_error)
next
  assume full: "48 \<le> length content"
  then have "0 + 3 * 16 \<le> length (take 48 content)" by simp
  from palette_loop_full [OF this, of "[]"]
  have "palette_loop 16 0 (take 48 content) [] =
      Inr (map (\<lambda>i. [uint (take 48 content ! (3 * i)), uint (take 48 content ! (3 * i + 1)),
                      uint (take 48 content ! (3 * i + 2))]) [0..<16])"
    by simp
  also have "map (\<lambda>i. [uint (take 48 content ! (3 * i)), uint (take 48 content ! (3 * i + 1)),
                      uint (take 48 content ! (3 * i + 2))]) [0..<16]
      = map (\<lambda>i. [uint (content ! (3 * i)), uint (content ! (3 * i + 1)),
                      uint (content ! (3 * i + 2))]) [0..<16]"
    by (rule map_cong) simp_all
  finally show "get_palette a w =
              Inr (map (\<lambda>i. [uint (content ! (3 * i)), uint (content ! (3 * i + 1)),
                              uint (content ! (3 * i + 2))]) [0..<16])"
    using assms by (simp add: get_palette_def)
qed

theorem get_palette_file_witness:
  "palette ((default_args ''in.png'' ''out.mzm'')\<lparr>palette := Some ''pal.bin''\<rparr>) = Some ''pal.bin''
   \<and> length (replicate 30 (0::byte)) < 48
   \<and> main black_pillow ascii_interpreter ((default_args ''in.png'' ''out.mzm'')\<lparr>palette := Some ''pal.bin''\<rparr>)
        \<lparr>files = [''pal.bin'' \<mapsto> replicate 30 0], writable = (\<lambda>p. True)\<rparr>
      = (Inl IndexError, \<lparr>files = [''pal.bin'' \<mapsto> replicate 30 0], writable = (\<lambda>p. True)\<rparr>)
   \<and> files (snd (main black_pillow ascii_interpreter ((default_args ''in.png'' ''out.mzm'')\<lparr>palette := Some ''pal.bin''\<rparr>)
        \<lparr>files = [''pal.bin'' \<mapsto> replicate 30 0], writable = (\<lambda>p. True)\<rparr>)) ''out.mzm'' = None"
proof -
  let ?a = "(default_args ''in.png'' ''out.mzm'')\<lparr>palette := Some ''pal.bin''\<rparr>"
  let ?w = "\<lparr>files = [''pal.bin'' \<mapsto> replicate 30 (0::byte)], writable = (\<lambda>p. True)\<rparr>"
  have h1: "palette ?a = Some ''pal.bin''" by simp
  have h2: "files ?w ''pal.bin'' = Some (replicate 30 0)" by simp
  have h3: "length (replicate 30 (0::byte)) < 48" by simp
  from get_palette_file [OF h1 h2, of black_pillow ascii_interpreter] h3
  have m: "main black_pillow ascii_interpreter ?a ?w = (Inl IndexError, ?w)" by blast
  then have "files (snd (main black_pillow ascii_interpreter ?a ?w)) ''out.mzm'' = None" by simp
  with h1 h3 m show ?thesis by blast
qed

text \<open>
  Claim C7. For a grid of width \<open>w\<close> and height \<open>h\<close> (unsigned 16 bit values) and a
  layer of \<open>w * h\<close> pairs of bytes, the writer leaves in the output file the 20 byte header
  (the magic bytes, width and height little endian, four zero bytes, then 0, 1, 0, 0x5C,
  2 and three zero bytes) followed by glyph and colour of every pair in layer order,
  \<open>20 + 2 * (w * h)\<close> bytes in all.
\<close>

theorem write_mzm_layout:
  assumes "0 \<le> width a" "width a < 65536" "0 \<le> height a" "height a < 65536"
    and "length layer = nat (width a * height a)"
    and "\<forall>p \<in> set layer. 0 \<le> fst p \<and> fst p < 256 \<and> 0 \<le> snd p \<and> snd p < 256"
    and "writable w (output_arg a)"
  shows "write_mzm a layer w =
      (Inr (), w\<lparr>files := (files w)(output_arg a \<mapsto>
          [0x4D, 0x5A, 0x4D, 0x33,
           word_of_int (width a), word_of_int (width a div 256),
           word_of_int (height a), word_of_int (height a div 256),
           0, 0, 0, 0, 0, 1, 0, 0x5C, 2, 0, 0, 0]
          @ concat (map (\<lambda>p. [word_of_int (fst p), word_of_int (snd p)]) layer))\<rparr>)
    \<and> length ([0x4D, 0x5A, 0x4D, 0x33,
           word_of_int (width a), word_of_int (width a div 256),
           word_of_int (height a), word_of_int (height a div 256),
           0, 0, 0, 0, 0, 1, 0, 0x5C, 2, 0, 0, 0 :: byte]
          @ concat (map (\<lambda>p. [word_of_int (fst p), word_of_int (snd p) :: byte]) layer))
        = 20 + 2 * nat (width a * height a)"
proof -
  have "\<forall>b \<in> set (concat (map (\<lambda>pair. [fst pair, snd pair]) layer)). 0 \<le> b \<and> b < 256"
    using assms(6) by auto
  from bytearray_in_range [OF this]
  have body: "bytearray (concat (map (\<lambda>pair. [fst pair, snd pair]) layer))
      = Inr (concat (map (\<lambda>p. [word_of_int (fst p), word_of_int (snd p)]) layer))"
    by (simp add: map_concat comp_def)
  have "write_mzm a layer w =
      (Inr (), w\<lparr>files := (files w)(output_arg a \<mapsto>
          [0x4D, 0x5A, 0x4D, 0x33,
           word_of_int (width a), word_of_int (width a div 256),
           word_of_int (height a), word_of_int (height a div 256),
           0, 0, 0, 0, 0, 1, 0, 0x5C, 2, 0, 0, 0]
          @ concat (map (\<lambda>p. [word_of_int (fst p), word_of_int (snd p)]) layer))\<rparr>)"
    using assms(7)
    by (simp add: write_mzm_def calcsize_header pack_header [OF assms(1-4)] body)
  moreover have "length (concat (map (\<lambda>p. [word_of_int (fst p), word_of_int (snd p) :: byte]) layer))
      = 2 * nat (width a * height a)"
    by (simp only: length_flat_pairs assms(5))
  ultimately show ?thesis by simp
qed

theorem write_mzm_layout_witness:
  "length (replicate 2000 (219 :: int, 7 :: int)) = nat (width (default_args ''in.png'' ''out.mzm'')
      * height (default_args ''in.png'' ''out.mzm''))
   \<and> fst (write_mzm (default_args ''in.png'' ''out.mzm'') (replicate 2000 (219, 7))
        \<lparr>files = Map.empty, writable = (\<lambda>p. True)\<rparr>) = Inr ()
   \<and> map_option length (files (snd (write_mzm (default_args ''in.png'' ''out.mzm'') (replicate 2000 (219, 7))
        \<lparr>files = Map.empty, writable = (\<lambda>p. True)\<rparr>)) ''out.mzm'') = Some 4020
   \<and> map_option (take 20) (files (snd (write_mzm (default_args ''in.png'' ''out.mzm'') (replicate 2000 (219, 7))
        \<lparr>files = Map.empty, writable = (\<lambda>p. True)\<rparr>)) ''out.mzm'')
       = Some [77, 90, 77, 51, 80, 0, 25, 0, 0, 0, 0, 0, 0, 1, 0, 92, 2, 0, 0, 0]"
proof -
  let ?a = "default_args ''in.png'' ''out.mzm''"
  let ?w = "\<lparr>files = Map.empty :: string \<Rightarrow> byte list option, writable = (\<lambda>p. True)\<rparr>"
  let ?l = "replicate 2000 (219 :: int, 7 :: int)"
  have h1: "0 \<le> width ?a" and h2: "width ?a < 65536" and h3: "0 \<le> height ?a"
    and h4: "height ?a < 65536" by (simp_all add: default_args_def)
  have h5: "length ?l = nat (width ?a * height ?a)" by (simp add: default_args_def)
  have h6: "\<forall>p \<in> set ?l. 0 \<le> fst p \<and> fst p < 256 \<and> 0 \<le> snd p \<and> snd p < 256" by simp
  have h7: "writable ?w (output_arg ?a)" by simp
  note t = write_mzm_layout [OF h1 h2 h3 h4 h5 h6 h7]
  have o: "output_arg ?a = ''out.mzm''" by (simp add: default_args_def)
  have wd: "width ?a = 80" "height ?a = 25" by (simp_all add: default_args_def)
  from t [THEN conjunct1] have 1: "fst (write_mzm ?a ?l ?w) = Inr ()" by (simp only: fst_conv)
  from t [THEN conjunct2]
  have 2: "map_option length (files (snd (write_mzm ?a ?l ?w)) ''out.mzm'') = Some 4020"
    by (simp only: t [THEN conjunct1] snd_conv o) (simp add: wd)
  have 3: "map_option (take 20) (files (snd (write_mzm ?a ?l ?w)) ''out.mzm'')
       = Some [77, 90, 77, 51, 80, 0, 25, 0, 0, 0, 0, 0, 0, 1, 0, 92, 2, 0, 0, 0]"
    by (simp only: t [THEN conjunct1] snd_conv o) (simp add: wd)
  from h5 1 2 3 show ?thesis by blast
qed

text \<open>
  Claim C1, as the code has it. Gradient parsing fails exactly when \<^verbatim>\<open>int\<close> refuses one
  of the comma separated tokens, and the exception is Python's \<^verbatim>\<open>ValueError\<close>. A token
  holding a character that is no decimal digit, sign, underscore or white space is refused,
  and a string of ASCII digits is refused when it has more than 640 digits and more than
  the interpreter's limit allows. The number of entries is not looked at: the result has
  one entry for each token, and a specification whose tokens are non-empty strings of
  ASCII digits within that limit is accepted whatever their number, a single one included.
\<close>

theorem get_chars_value_error:
  "(get_chars U a = Inl ValueError
      \<longleftrightarrow> (\<exists>t \<in> set (split_on 44 (chars a)). python_int U t = Inl ValueError))
   \<and> (\<forall>e. get_chars U a = Inl e \<longrightarrow> e = ValueError)
   \<and> (\<forall>cs. get_chars U a = Inr cs \<longrightarrow>
          length cs = length (split_on 44 (chars a)) \<and> 1 \<le> length cs)
   \<and> ((\<exists>t \<in> set (split_on 44 (chars a)). \<exists>c \<in> set t.
           \<not> is_digit c \<and> \<not> is_space c \<and> c \<noteq> 43 \<and> c \<noteq> 45 \<and> c \<noteq> 95
           \<and> (127 \<le> c \<longrightarrow> \<not> unicode_isspace U c \<and> unicode_todecimal U c = None))
        \<longrightarrow> get_chars U a = Inl ValueError)
   \<and> ((\<exists>t \<in> set (split_on 44 (chars a)).
           t \<noteq> [] \<and> (\<forall>c \<in> set t. is_digit c)
           \<and> 640 < length t \<and> 0 < max_str_digits U \<and> max_str_digits U < length t)
        \<longrightarrow> get_chars U a = Inl ValueError)
   \<and> ((\<forall>t \<in> set (split_on 44 (chars a)).
           t \<noteq> [] \<and> (\<forall>c \<in> set t. is_digit c)
           \<and> (length t \<le> 640 \<or> max_str_digits U = 0 \<or> length t \<le> max_str_digits U))
        \<longrightarrow> get_chars U a =
              Inr (map (foldl (\<lambda>v c. 10 * v + digit_value c) 0) (split_on 44 (chars a))))"
proof -
  let ?ts = "split_on 44 (chars a)"
  have err: "e = ValueError" if "get_chars U a = Inl e" for e
  proof -
    from that obtain t where "python_int U t = Inl e"
      unfolding get_chars_def by (blast dest: map_result_error)
    then show ?thesis by (rule python_int_error)
  qed
  have fails: "get_chars U a = Inl ValueError"
    if "t \<in> set ?ts" "python_int U t = Inl ValueError" for t
  proof -
    from map_result_fails [of t ?ts "python_int U" ValueError, OF that]
    obtain e where "get_chars U a = Inl e"
      unfolding get_chars_def by blast
    with err [OF this] show ?thesis by simp
  qed
  have 1: "get_chars U a = Inl ValueError \<longleftrightarrow> (\<exists>t \<in> set ?ts. python_int U t = Inl ValueError)"
    using fails unfolding get_chars_def by (blast dest: map_result_error)
  have 3: "length cs = length ?ts \<and> 1 \<le> length cs" if "get_chars U a = Inr cs" for cs
  proof -
    have "length cs = length ?ts"
      using that unfolding get_chars_def by (rule map_result_length)
    moreover have "1 \<le> length ?ts"
      using split_on_nonempty [of 44 "chars a"] by (cases ?ts) simp_all
    ultimately show ?thesis by simp
  qed
  have 4: "get_chars U a = Inl ValueError"
    if "\<exists>t \<in> set ?ts. \<exists>c \<in> set t.
           \<not> is_digit c \<and> \<not> is_space c \<and> c \<noteq> 43 \<and> c \<noteq> 45 \<and> c \<noteq> 95
           \<and> (127 \<le> c \<longrightarrow> \<not> unicode_isspace U c \<and> unicode_todecimal U c = None)"
  proof -
    from that obtain t c where t: "t \<in> set ?ts" and "c \<in> set t" "\<not> is_digit c" "\<not> is_space c"
      "c \<noteq> 43" "c \<noteq> 45" "c \<noteq> 95"
      "127 \<le> c \<longrightarrow> \<not> unicode_isspace U c \<and> unicode_todecimal U c = None" by blast
    then have "python_int U t = Inl ValueError" by (intro python_int_bad_char)
    with t show ?thesis by (rule fails)
  qed
  have 5: "get_chars U a = Inl ValueError"
    if "\<exists>t \<in> set ?ts. t \<noteq> [] \<and> (\<forall>c \<in> set t. is_digit c)
           \<and> 640 < length t \<and> 0 < max_str_digits U \<and> max_str_digits U < length t"
  proof -
    from that obtain t where t: "t \<in> set ?ts" and d: "t \<noteq> []" "\<forall>c \<in> set t. is_digit c"
      and l: "640 < length t \<and> 0 < max_str_digits U \<and> max_str_digits U < length t" by blast
    from python_int_digit_string [OF d, of U] l have "python_int U t = Inl ValueError"
      by simp
    with t show ?thesis by (rule fails)
  qed
  have 6: "get_chars U a = Inr (map (foldl (\<lambda>v c. 10 * v + digit_value c) 0) ?ts)"
    if h: "\<forall>t \<in> set ?ts. t \<noteq> [] \<and> (\<forall>c \<in> set t. is_digit c)
           \<and> (length t \<le> 640 \<or> max_str_digits U = 0 \<or> length t \<le> max_str_digits U)"
  proof -
    have "python_int U t = Inr (foldl (\<lambda>v c. 10 * v + digit_value c) 0 t)" if "t \<in> set ?ts" for t
    proof -
      from h that have d: "t \<noteq> []" "\<forall>c \<in> set t. is_digit c"
        and l: "length t \<le> 640 \<or> max_str_digits U = 0 \<or> length t \<le> max_str_digits U" by blast+
      from l have "\<not> (640 < length t \<and> 0 < max_str_digits U \<and> max_str_digits U < length t)"
        by auto
      with python_int_digit_string [OF d, of U] show ?thesis by simp
    qed
    then have "\<forall>t \<in> set ?ts. python_int U t = Inr (foldl (\<lambda>v c. 10 * v + digit_value c) 0 t)"
      by blast
    then show ?thesis unfolding get_chars_def by (rule map_result_all)
  qed
  from 1 err 3 4 5 6 show ?thesis by blast
qed

theorem get_chars_value_error_witness:
  "get_chars ascii_interpreter (default_args ''in.png'' ''out.mzm'') = Inr [176, 177, 178, 219]
   \<and> get_chars ascii_interpreter ((default_args ''in.png'' ''out.mzm'')\<lparr>chars := map of_char ''176,x''\<rparr>)
       = Inl ValueError"
proof -
  let ?a = "default_args ''in.png'' ''out.mzm''"
  let ?b = "(default_args ''in.png'' ''out.mzm'')\<lparr>chars := map of_char ''176,x''\<rparr>"
  have h: "\<forall>t \<in> set (split_on 44 (chars ?a)).
      t \<noteq> [] \<and> (\<forall>c \<in> set t. is_digit c)
      \<and> (length t \<le> 640 \<or> max_str_digits ascii_interpreter = 0
          \<or> length t \<le> max_str_digits ascii_interpreter)"
    by code_simp
  have v: "map (foldl (\<lambda>v c. 10 * v + digit_value c) 0) (split_on 44 (chars ?a))
      = [176, 177, 178, 219]"
    by code_simp
  have g: "\<exists>t \<in> set (split_on 44 (chars ?b)). \<exists>c \<in> set t.
      \<not> is_digit c \<and> \<not> is_space c \<and> c \<noteq> 43 \<and> c \<noteq> 45 \<and> c \<noteq> 95
      \<and> (127 \<le> c \<longrightarrow> \<not> unicode_isspace ascii_interpreter c
            \<and> unicode_todecimal ascii_interpreter c = None)"
    by code_simp
  from get_chars_value_error [of ascii_interpreter ?a] h v
  have 1: "get_chars ascii_interpreter ?a = Inr [176, 177, 178, 219]" by (simp only:)
  from get_chars_value_error [of ascii_interpreter ?b] g
  have 2: "get_chars ascii_interpreter ?b = Inl ValueError" by blast
  from 1 2 show ?thesis by (rule conjI)
qed

text \<open>
  The claim as written fails: the single entry specification \<^verbatim>\<open>--chars "1"\<close> is accepted
  and yields the gradient \<open>[1]\<close>. The text is ASCII and short, so neither the Unicode
  database nor the digit limit of the interpreter plays a part.
\<close>

theorem get_chars_single_entry_counterexample:
  "get_chars ascii_interpreter ((default_args ''in.png'' ''out.mzm'')\<lparr>chars := map of_char ''1''\<rparr>)
     = Inr [1]"
  by (rule single_entry_accepted) simp

text \<open>
  Claim C2. A configuration with a zero cell width or height is refused before any cell
  is reduced, and the reducer never divides by zero. The program has no check of its
  own: the refusal is the one of the imaging library, whose \<^verbatim>\<open>resize\<close> raises for a
  width or height below 1 (\<^verbatim>\<open>ValueError\<close>, \<open>height and width must be > 0\<close>) and is
  called with the pixel size \<open>width * char_width\<close> by \<open>height * char_height\<close> as the
  first step of the layer builder. With that exception uncaught, the layer builder and
  the program end in it, the file system untouched; and whenever \<^verbatim>\<open>resize\<close> returns,
  every cell of the grid has \<open>char_width * char_height > 0\<close> pixels in its histogram and
  its reduction does not divide by zero.
\<close>

theorem zero_area_refused_before_reduction:
  assumes "\<forall>im sz. fst sz < 1 \<or> snd sz < 1 \<longrightarrow> (\<exists>e. image_resize P im sz = Inl e)"
  shows "(char_width a = 0 \<or> char_height a = 0 \<longrightarrow>
            (\<exists>e. image_resize P im (width a * char_width a, height a * char_height a) = Inl e
                \<and> mad_science P a im pil_pal mzx_pal mzx_chars = Inl e)
            \<and> (\<exists>e. main P U a w = (Inl e, w)))
    \<and> (\<forall>im2. image_resize P im (width a * char_width a, height a * char_height a) = Inr im2 \<longrightarrow>
          (\<forall>newim. \<forall>yx \<in> set (cells a).
              sum_list (cell_histogram a newim yx) = nat (char_height a) * nat (char_width a)
            \<and> 0 < sum_list (cell_histogram a newim yx)
            \<and> cell a newim mzx_pal mzx_chars yx \<noteq> Inl ZeroDivisionError))"
proof (intro conjI impI allI ballI)
  assume z: "char_width a = 0 \<or> char_height a = 0"
  then have small: "fst (width a * char_width a, height a * char_height a) < 1
      \<or> snd (width a * char_width a, height a * char_height a) < 1" by auto
  have r: "\<exists>e. image_resize P im' (width a * char_width a, height a * char_height a) = Inl e" for im'
    by (rule assms [rule_format, OF small])
  from r [of im] obtain e
    where e: "image_resize P im (width a * char_width a, height a * char_height a) = Inl e"
    by blast
  from mad_science_resize_error [OF e] e
  show "\<exists>e. image_resize P im (width a * char_width a, height a * char_height a) = Inl e
      \<and> mad_science P a im pil_pal mzx_pal mzx_chars = Inl e" by blast
  from r have "\<forall>im. \<exists>e. image_resize P im (width a * char_width a, height a * char_height a) = Inl e"
    by (rule allI)
  then show "\<exists>e. main P U a w = (Inl e, w)" by (rule main_resize_refused)
next
  fix im2 newim yx
  assume ok: "image_resize P im (width a * char_width a, height a * char_height a) = Inr im2"
    and yx: "yx \<in> set (cells a)"
  have size: "1 \<le> width a * char_width a" "1 \<le> height a * char_height a"
  proof -
    have "\<not> (fst (width a * char_width a, height a * char_height a) < 1
      \<or> snd (width a * char_width a, height a * char_height a) < 1)"
    proof
      assume "fst (width a * char_width a, height a * char_height a) < 1
        \<or> snd (width a * char_width a, height a * char_height a) < 1"
      from assms [rule_format, OF this, of im] obtain e
        where "image_resize P im (width a * char_width a, height a * char_height a) = Inl e" ..
      with ok show False by simp
    qed
    then show "1 \<le> width a * char_width a" "1 \<le> height a * char_height a" by simp_all
  qed
  from cells_grid [OF yx] have grid: "0 < width a" "0 < height a" by simp_all
  have "0 < width a * char_width a" using size(1) by simp
  then have cw: "0 < char_width a" using grid(1) by (rule zero_less_mult_pos)
  have "0 < height a * char_height a" using size(2) by simp
  then have ch: "0 < char_height a" using grid(2) by (rule zero_less_mult_pos)
  obtain y x where p: "yx = (y, x)" by (cases yx) auto
  show total: "sum_list (cell_histogram a newim yx) = nat (char_height a) * nat (char_width a)"
    by (simp only: p cell_histogram_total)
  with cw ch show pos: "0 < sum_list (cell_histogram a newim yx)" by simp
  have "2 \<le> length (cell_histogram a newim yx)" by (simp add: cell_histogram_length)
  from reducer_no_zero_division [OF this pos]
  show "cell a newim mzx_pal mzx_chars yx \<noteq> Inl ZeroDivisionError" by (simp add: cell_def)
qed


theorem zero_area_refused_before_reduction_witness:
  "mad_science black_pillow ((default_args ''in.png'' ''out.mzm'')\<lparr>char_width := 0\<rparr>) (1, 1)
      (make_8bit_palette DEFAULT_PALETTE) DEFAULT_PALETTE [176, 177, 178, 219]
     = Inl ValueError
   \<and> (\<exists>e. main black_pillow ascii_interpreter
          ((default_args ''in.png'' ''out.mzm'')\<lparr>char_width := 0\<rparr>)
          \<lparr>files = [''in.png'' \<mapsto> [137]], writable = (\<lambda>p. True)\<rparr>
        = (Inl e, \<lparr>files = [''in.png'' \<mapsto> [137]], writable = (\<lambda>p. True)\<rparr>))
   \<and> sum_list (cell_histogram (default_args ''in.png'' ''out.mzm'') [] (0, 0)) = 112
   \<and> cell (default_args ''in.png'' ''out.mzm'') [] DEFAULT_PALETTE [176, 177, 178, 219] (0, 0)
     \<noteq> Inl ZeroDivisionError"
proof -
  let ?a = "default_args ''in.png'' ''out.mzm''"
  let ?z = "(default_args ''in.png'' ''out.mzm'')\<lparr>char_width := 0\<rparr>"
  let ?w = "\<lparr>files = [''in.png'' \<mapsto> [137 :: byte]], writable = (\<lambda>p. True)\<rparr>"
  let ?pil = "make_8bit_palette DEFAULT_PALETTE"
  have h: "\<forall>im sz. fst sz < 1 \<or> snd sz < 1 \<longrightarrow> (\<exists>e. image_resize black_pillow im sz = Inl e)"
    by (simp add: black_pillow_def)
  have z: "char_width ?z = 0 \<or> char_height ?z = 0" by simp
  have rz: "image_resize black_pillow (1, 1) (width ?z * char_width ?z, height ?z * char_height ?z)
      = Inl ValueError"
    by (simp add: black_pillow_def default_args_def)
  note t = zero_area_refused_before_reduction [OF h]
  from t [of ?z "(1, 1)" ?pil DEFAULT_PALETTE "[176, 177, 178, 219]" ascii_interpreter ?w,
      THEN conjunct1, rule_format, OF z]
  have 1: "\<exists>e. image_resize black_pillow (1, 1) (width ?z * char_width ?z, height ?z * char_height ?z)
        = Inl e
      \<and> mad_science black_pillow ?z (1, 1) ?pil DEFAULT_PALETTE [176, 177, 178, 219] = Inl e"
    and 2: "\<exists>e. main black_pillow ascii_interpreter ?z ?w = (Inl e, ?w)"
    by blast+
  from 1 rz have 3: "mad_science black_pillow ?z (1, 1) ?pil DEFAULT_PALETTE [176, 177, 178, 219]
      = Inl ValueError"
    by auto
  have ok: "image_resize black_pillow (1, 1) (width ?a * char_width ?a, height ?a * char_height ?a)
      = Inr (640, 350)"
    by (simp add: black_pillow_def default_args_def)
  have mem: "(0, 0) \<in> set (cells ?a)" by code_simp
  from t [of ?a "(1, 1)" ?pil DEFAULT_PALETTE "[176, 177, 178, 219]" ascii_interpreter ?w,
      THEN conjunct2, rule_format, OF ok mem, of "[]"]
  have 4: "sum_list (cell_histogram ?a [] (0, 0)) = nat (char_height ?a) * nat (char_width ?a)"
    and 5: "cell ?a [] DEFAULT_PALETTE [176, 177, 178, 219] (0, 0) \<noteq> Inl ZeroDivisionError"
    by blast+
  from 4 have 6: "sum_list (cell_histogram ?a [] (0, 0)) = 112" by (simp add: default_args_def)
  from 3 2 6 5 show ?thesis by blast
qed

end
